theory Spec2Isabelle
  imports Complex_Main
begin

section \<open>Numbers\<close>

text \<open>
  The class \<open>ScaledInteger\<close> of \<open>scaled-integer.ts\<close> stores a magnitude \<open>_value\<close> and a
  scale \<open>_scale\<close>, both of the host type \<open>number\<close>: an IEEE 754 binary64 value. A
  \<open>number\<close> is modelled as a finite value (a rational, which every binary64 value is), one
  of the two infinities, or \<open>NaN\<close>. Every arithmetic operation computes the exact result
  and rounds it to the nearest binary64 value, as the host does. The sign of a zero is not
  tracked: the class never observes it.
\<close>

datatype number = Fin rat | PInf | NInf | NaN

text \<open>Rounding to the nearest integer, ties to the even one.\<close>

definition rhe :: "rat \<Rightarrow> int" where
  "rhe x =
     (if x - of_int \<lfloor>x\<rfloor> < 1 / 2 then \<lfloor>x\<rfloor>
      else if 1 / 2 < x - of_int \<lfloor>x\<rfloor> then \<lfloor>x\<rfloor> + 1
      else if even \<lfloor>x\<rfloor> then \<lfloor>x\<rfloor> else \<lfloor>x\<rfloor> + 1)"

text \<open>The binary exponent of a positive rational: \<open>2 powi (ilog2 x) \<le> x < 2 powi (ilog2 x + 1)\<close>.\<close>

function ilog2_up :: "rat \<Rightarrow> int" where
  "ilog2_up x = (if x < 2 then 0 else 1 + ilog2_up (x / 2))"
  by pat_completeness auto
termination
proof (relation "measure (\<lambda>x. nat \<lfloor>x\<rfloor>)")
  show "wf (measure (\<lambda>x::rat. nat \<lfloor>x\<rfloor>))" by simp
next
  fix x :: rat
  assume "\<not> x < 2"
  then have "2 \<le> x" by simp
  then have "\<lfloor>x / 2\<rfloor> < \<lfloor>x\<rfloor>" by linarith
  moreover have "0 < \<lfloor>x\<rfloor>" using \<open>2 \<le> x\<close> by linarith
  ultimately show "(x / 2, x) \<in> measure (\<lambda>x. nat \<lfloor>x\<rfloor>)" by simp
qed

declare ilog2_up.simps [simp del]

function ilog2_down :: "rat \<Rightarrow> int" where
  "ilog2_down x = (if x \<le> 0 \<or> 1 \<le> x then 0 else ilog2_down (2 * x) - 1)"
  by pat_completeness auto
termination
proof (relation "measure (\<lambda>x. nat \<lfloor>1 / x\<rfloor>)")
  show "wf (measure (\<lambda>x::rat. nat \<lfloor>1 / x\<rfloor>))" by simp
next
  fix x :: rat
  assume "\<not> (x \<le> 0 \<or> 1 \<le> x)"
  then have x: "0 < x" "x < 1" by simp_all
  then have y: "1 < 1 / x" by simp
  have c: "\<And>z w :: rat. 1 \<le> z \<Longrightarrow> w < z + 1 \<Longrightarrow> w / 2 < z" by linarith
  have "1 \<le> \<lfloor>1 / x\<rfloor>" using y by (simp add: le_floor_iff)
  then have a: "(1::rat) \<le> of_int \<lfloor>1 / x\<rfloor>" by (simp add: one_le_floor)
  have b: "1 / x < of_int \<lfloor>1 / x\<rfloor> + 1" by linarith
  from a b have "1 / x / 2 < of_int \<lfloor>1 / x\<rfloor>" by (rule c)
  then have "\<lfloor>1 / x / 2\<rfloor> < \<lfloor>1 / x\<rfloor>" by (simp only: floor_less_iff)
  moreover have "0 < \<lfloor>1 / x\<rfloor>" using y by linarith
  moreover have "1 / (2 * x) = 1 / x / 2" by simp
  ultimately have "nat \<lfloor>1 / (2 * x)\<rfloor> < nat \<lfloor>1 / x\<rfloor>" by (simp only:)
  then show "(2 * x, x) \<in> measure (\<lambda>x. nat \<lfloor>1 / x\<rfloor>)" by simp
qed

declare ilog2_down.simps [simp del]

definition ilog2 :: "rat \<Rightarrow> int" where
  "ilog2 x = (if 1 \<le> x then ilog2_up x else ilog2_down x)"

text \<open>
  \<open>fl x\<close> is the binary64 value nearest to \<open>x\<close>: a significand of 53 bits, the
  least bit of weight at least \<open>2 powi (- 1074)\<close> (subnormal values), ties to the even
  significand, and an infinity once the rounded magnitude reaches \<open>2 ^ 1024\<close>.
\<close>

definition fl :: "rat \<Rightarrow> number" where
  "fl x =
     (if x = 0 then Fin 0
      else
        (let q = max (ilog2 \<bar>x\<bar> - 52) (- 1074);
             y = of_int (rhe (\<bar>x\<bar> / 2 powi q)) * 2 powi q
         in if 2 ^ 1024 \<le> y then (if 0 < x then PInf else NInf)
            else Fin (sgn x * y)))"

text \<open>The operators \<open>-x\<close>, \<open>+\<close>, \<open>-\<close>, \<open>*\<close>, \<open>/\<close> and \<open>%\<close> of the host. The remainder takes the sign of the
  dividend and is exact.\<close>

fun n_neg :: "number \<Rightarrow> number" where
  "n_neg (Fin a) = Fin (- a)"
| "n_neg PInf = NInf"
| "n_neg NInf = PInf"
| "n_neg NaN = NaN"

fun n_add :: "number \<Rightarrow> number \<Rightarrow> number" where
  "n_add (Fin a) (Fin b) = fl (a + b)"
| "n_add NaN _ = NaN"
| "n_add _ NaN = NaN"
| "n_add PInf NInf = NaN"
| "n_add NInf PInf = NaN"
| "n_add PInf _ = PInf"
| "n_add _ PInf = PInf"
| "n_add NInf _ = NInf"
| "n_add _ NInf = NInf"

definition n_sub :: "number \<Rightarrow> number \<Rightarrow> number" where
  "n_sub a b = n_add a (n_neg b)"

fun n_mul :: "number \<Rightarrow> number \<Rightarrow> number" where
  "n_mul (Fin a) (Fin b) = fl (a * b)"
| "n_mul NaN _ = NaN"
| "n_mul _ NaN = NaN"
| "n_mul (Fin a) PInf = (if a = 0 then NaN else if 0 < a then PInf else NInf)"
| "n_mul (Fin a) NInf = (if a = 0 then NaN else if 0 < a then NInf else PInf)"
| "n_mul PInf (Fin b) = (if b = 0 then NaN else if 0 < b then PInf else NInf)"
| "n_mul NInf (Fin b) = (if b = 0 then NaN else if 0 < b then NInf else PInf)"
| "n_mul PInf PInf = PInf"
| "n_mul PInf NInf = NInf"
| "n_mul NInf PInf = NInf"
| "n_mul NInf NInf = PInf"

fun n_div :: "number \<Rightarrow> number \<Rightarrow> number" where
  "n_div (Fin a) (Fin b) =
     (if b = 0 then (if a = 0 then NaN else if 0 < a then PInf else NInf) else fl (a / b))"
| "n_div NaN _ = NaN"
| "n_div _ NaN = NaN"
| "n_div (Fin a) PInf = Fin 0"
| "n_div (Fin a) NInf = Fin 0"
| "n_div PInf (Fin b) = (if 0 \<le> b then PInf else NInf)"
| "n_div NInf (Fin b) = (if 0 \<le> b then NInf else PInf)"
| "n_div PInf PInf = NaN"
| "n_div PInf NInf = NaN"
| "n_div NInf PInf = NaN"
| "n_div NInf NInf = NaN"

definition trunc :: "rat \<Rightarrow> int" where
  "trunc x = (if x < 0 then \<lceil>x\<rceil> else \<lfloor>x\<rfloor>)"

fun n_rem :: "number \<Rightarrow> number \<Rightarrow> number" where
  "n_rem (Fin a) (Fin b) = (if b = 0 then NaN else Fin (a - b * of_int (trunc (a / b))))"
| "n_rem (Fin a) PInf = Fin a"
| "n_rem (Fin a) NInf = Fin a"
| "n_rem _ _ = NaN"

text \<open>\<open>Math.floor\<close>, \<open>Math.abs\<close>, \<open><\<close>, \<open>===\<close> (false on \<open>NaN\<close>) and \<open>Number.isSafeInteger\<close>.\<close>

fun Math_floor :: "number \<Rightarrow> number" where
  "Math_floor (Fin a) = Fin (of_int \<lfloor>a\<rfloor>)"
| "Math_floor x = x"

fun Math_abs :: "number \<Rightarrow> number" where
  "Math_abs (Fin a) = Fin \<bar>a\<bar>"
| "Math_abs NInf = PInf"
| "Math_abs x = x"

fun n_lt :: "number \<Rightarrow> number \<Rightarrow> bool" where
  "n_lt (Fin a) (Fin b) \<longleftrightarrow> a < b"
| "n_lt NaN _ \<longleftrightarrow> False"
| "n_lt _ NaN \<longleftrightarrow> False"
| "n_lt _ NInf \<longleftrightarrow> False"
| "n_lt PInf _ \<longleftrightarrow> False"
| "n_lt NInf _ \<longleftrightarrow> True"
| "n_lt _ PInf \<longleftrightarrow> True"

definition n_eq :: "number \<Rightarrow> number \<Rightarrow> bool" where
  "n_eq a b \<longleftrightarrow> a = b \<and> a \<noteq> NaN"

fun isSafeInteger :: "number \<Rightarrow> bool" where
  "isSafeInteger (Fin a) \<longleftrightarrow> a = of_int \<lfloor>a\<rfloor> \<and> \<bar>a\<bar> \<le> 9007199254740991"
| "isSafeInteger _ \<longleftrightarrow> False"

text \<open>
  Two operations of the host are not fixed by the language: \<open>10 ** e\<close> is only required to
  approximate the power, and the conversion of a digit string with more than 20
  significant digits may round after the 20th. They are parameters of the model:
  \<open>h_pow\<close> and \<open>h_num\<close>. The power is taken to be exact for the integer exponents
  \<open>0 \<le> e \<le> 22\<close>, where \<open>10 ^ e\<close> is a binary64 value, and to be \<open>Infinity\<close> from
  \<open>e = 309\<close> on, where it exceeds every finite binary64 value.
\<close>

record host =
  h_pow :: "rat \<Rightarrow> number"
  h_num :: "string \<Rightarrow> number"

fun pow10 :: "host \<Rightarrow> number \<Rightarrow> number" where
  "pow10 H (Fin e) =
     (if e = of_int \<lfloor>e\<rfloor> \<and> 0 \<le> e \<and> e \<le> 22 then Fin (10 ^ nat \<lfloor>e\<rfloor>)
      else if 309 \<le> e then PInf
      else h_pow H e)"
| "pow10 H PInf = PInf"
| "pow10 H NInf = Fin 0"
| "pow10 H NaN = NaN"

section \<open>The class\<close>

text \<open>The private fields \<open>_value\<close> and \<open>_scale\<close>.\<close>

record ScaledInteger =
  p_value :: number
  p_scale :: number

text \<open>Every failure is a thrown \<open>Error\<close> carrying its message.\<close>

datatype error = Error string

text \<open>The constructor, \<open>deserialize\<close> and \<open>clone\<close>.\<close>

definition ScaledInteger_new :: "number \<Rightarrow> number \<Rightarrow> error + ScaledInteger" where
  "ScaledInteger_new v s =
     (if \<not> isSafeInteger v then Inl (Error ''unsafe integer value'')
      else if \<not> isSafeInteger s then Inl (Error ''unsafe integer value'')
      else if n_lt s (Fin 0) then Inl (Error ''scale must be a positive integer'')
      else Inr \<lparr>p_value = v, p_scale = s\<rparr>)"

definition deserialize :: "number \<times> number \<Rightarrow> error + ScaledInteger" where
  "deserialize input = (case input of (v, s) \<Rightarrow> ScaledInteger_new v s)"

definition clone :: "ScaledInteger \<Rightarrow> error + ScaledInteger" where
  "clone x = ScaledInteger_new (p_value x) (p_scale x)"

text \<open>The scale of the receiver is compared with \<open>other\<close>'s; \<open>_unsafelyGetRelativeValue\<close> has no
  comparison.\<close>

definition getRelativeValue :: "host \<Rightarrow> ScaledInteger \<Rightarrow> ScaledInteger \<Rightarrow> error + number" where
  "getRelativeValue H x other =
     (let otherScale = p_scale other in
      if n_lt (p_scale x) otherScale then Inl (Error ''other scale must be greater'')
      else Inr (n_mul (p_value x) (pow10 H (n_sub otherScale (p_scale x)))))"

definition unsafelyGetRelativeValue :: "host \<Rightarrow> ScaledInteger \<Rightarrow> number \<Rightarrow> number" where
  "unsafelyGetRelativeValue H x otherScale =
     n_mul (p_value x) (pow10 H (n_sub otherScale (p_scale x)))"

definition normalizedValues ::
  "host \<Rightarrow> ScaledInteger \<Rightarrow> ScaledInteger \<Rightarrow> (number \<times> number) \<times> number" where
  "normalizedValues H a b =
     (let aValue = p_value a; aScale = p_scale a; bValue = p_value b; bScale = p_scale b in
      if n_lt aScale bScale then ((unsafelyGetRelativeValue H a bScale, bValue), bScale)
      else ((aValue, unsafelyGetRelativeValue H b aScale), aScale))"

definition equal :: "host \<Rightarrow> ScaledInteger \<Rightarrow> ScaledInteger \<Rightarrow> bool" where
  "equal H a b =
     (let aScale = p_scale a; bScale = p_scale b in
      if n_lt bScale aScale then n_eq (p_value a) (unsafelyGetRelativeValue H b aScale)
      else n_eq (unsafelyGetRelativeValue H a bScale) (p_value b))"

text \<open>The mutating methods return the updated receiver. \<open>transformScale\<close> returns \<open>this\<close> when it
  widens and the truncated remainder when it narrows.\<close>

definition increaseScale :: "host \<Rightarrow> ScaledInteger \<Rightarrow> number \<Rightarrow> ScaledInteger" where
  "increaseScale H x scaleIncrement =
     x\<lparr>p_value := n_mul (p_value x) (pow10 H scaleIncrement),
       p_scale := n_add (p_scale x) scaleIncrement\<rparr>"

datatype transformed = This | Truncated number

definition transformScale ::
  "host \<Rightarrow> ScaledInteger \<Rightarrow> number \<Rightarrow> ScaledInteger \<times> transformed" where
  "transformScale H x newScale =
     (if n_lt (p_scale x) newScale
      then (increaseScale H x (n_sub newScale (p_scale x)), This)
      else
        (let truncatedScale = n_sub (p_scale x) newScale;
             truncated = n_rem (p_value x) (pow10 H truncatedScale)
         in (\<lparr>p_value = Math_floor (n_div (n_sub (p_value x) truncated)
                                            (pow10 H truncatedScale)),
              p_scale = newScale\<rparr>,
             Truncated truncated)))"

definition normalizeTo :: "host \<Rightarrow> ScaledInteger \<Rightarrow> ScaledInteger \<Rightarrow> ScaledInteger" where
  "normalizeTo H x other =
     (let otherScale = p_scale other in
      if n_lt (p_scale x) otherScale then fst (transformScale H x otherScale) else x)"

text \<open>The loop of \<open>trimScale\<close> counts the trailing zero digits of the magnitude; \<open>None\<close> stands for a
  loop that does not end.\<close>

partial_function (option) trimScale_loop ::
  "host \<Rightarrow> number \<Rightarrow> number \<Rightarrow> number \<Rightarrow> number option" where
  "trimScale_loop H v sc i =
     (if n_lt i sc then
        (if \<not> n_eq (n_rem v (pow10 H (n_add i (Fin 1)))) (Fin 0) then Some i
         else trimScale_loop H v sc (n_add i (Fin 1)))
      else Some i)"

definition trimScale :: "host \<Rightarrow> ScaledInteger \<Rightarrow> ScaledInteger option" where
  "trimScale H x =
     (case trimScale_loop H (p_value x) (p_scale x) (Fin 0) of
        None \<Rightarrow> None
      | Some i \<Rightarrow>
          Some \<lparr>p_value = n_div (p_value x) (pow10 H i), p_scale = n_sub (p_scale x) i\<rparr>)"

text \<open>The three arithmetic methods. Their bodies differ in the message only.\<close>

definition add :: "host \<Rightarrow> ScaledInteger \<Rightarrow> ScaledInteger \<Rightarrow> error + ScaledInteger" where
  "add H x other =
     (case normalizedValues H x other of ((lhs, rhs), scale) \<Rightarrow>
        let v = n_add lhs rhs in
        if \<not> isSafeInteger v then Inl (Error ''addition overflow'')
        else Inr \<lparr>p_value = v, p_scale = scale\<rparr>)"

definition subtract :: "host \<Rightarrow> ScaledInteger \<Rightarrow> ScaledInteger \<Rightarrow> error + ScaledInteger" where
  "subtract H x other =
     (case normalizedValues H x other of ((lhs, rhs), scale) \<Rightarrow>
        let v = n_add lhs rhs in
        if \<not> isSafeInteger v then Inl (Error ''subtraction overflow'')
        else Inr \<lparr>p_value = v, p_scale = scale\<rparr>)"

definition multiply :: "host \<Rightarrow> ScaledInteger \<Rightarrow> ScaledInteger \<Rightarrow> error + ScaledInteger" where
  "multiply H x other =
     (case normalizedValues H x other of ((lhs, rhs), scale) \<Rightarrow>
        let v = n_add lhs rhs in
        if \<not> isSafeInteger v then Inl (Error ''multiplication overflow'')
        else Inr \<lparr>p_value = v, p_scale = scale\<rparr>)"

text \<open>\<open>maximumScale(first, ...values)\<close>: the loop runs over the rest array from its index 1 and
  the returned index is the final value of the loop variable.\<close>

function maximumScale_loop ::
  "ScaledInteger list \<Rightarrow> nat \<Rightarrow> ScaledInteger \<Rightarrow> number \<Rightarrow> nat \<times> ScaledInteger" where
  "maximumScale_loop values i max_item maxScale =
     (if i < length values then
        (if n_lt maxScale (p_scale (values ! i))
         then maximumScale_loop values (Suc i) (values ! i) (p_scale (values ! i))
         else maximumScale_loop values (Suc i) max_item maxScale)
      else (i, max_item))"
  by pat_completeness auto
termination
  by (relation "measure (\<lambda>(values, i, m, ms). length values - i)") auto

declare maximumScale_loop.simps [simp del]

definition maximumScale :: "ScaledInteger \<Rightarrow> ScaledInteger list \<Rightarrow> nat \<times> ScaledInteger" where
  "maximumScale first values = maximumScale_loop values 1 first (p_scale first)"

function normalize_loop ::
  "host \<Rightarrow> ScaledInteger list \<Rightarrow> nat \<Rightarrow> ScaledInteger \<Rightarrow> nat \<Rightarrow> ScaledInteger list
     \<Rightarrow> error + ScaledInteger list" where
  "normalize_loop H values maxIndex max_item i output =
     (if i < length values then
        (if i = maxIndex
         then normalize_loop H values maxIndex max_item (Suc i) (output @ [values ! i])
         else (case clone (values ! i) of
                 Inl e \<Rightarrow> Inl e
               | Inr cloned \<Rightarrow>
                   normalize_loop H values maxIndex max_item (Suc i)
                     (output @ [normalizeTo H cloned max_item])))
      else Inr output)"
  by pat_completeness auto
termination
  by (relation "measure (\<lambda>(H, values, mi, m, i, out). length values - i)") auto

declare normalize_loop.simps [simp del]

definition normalize :: "host \<Rightarrow> ScaledInteger list \<Rightarrow> error + ScaledInteger list" where
  "normalize H values =
     (if length values = 0 then Inr []
      else (case maximumScale (values ! 0) (drop 1 values) of
              (maxIndex, max_item) \<Rightarrow> normalize_loop H values maxIndex max_item 0 []))"

section \<open>Strings\<close>

text \<open>\<open>trimStart\<close> and \<open>trimEnd\<close> of \<open>util.ts\<close>.\<close>

function trimStart_loop :: "string \<Rightarrow> char \<Rightarrow> nat \<Rightarrow> nat" where
  "trimStart_loop str c i =
     (if i < length str then (if str ! i \<noteq> c then i else trimStart_loop str c (Suc i))
      else i)"
  by pat_completeness auto
termination
  by (relation "measure (\<lambda>(str, c, i). length str - i)") auto

declare trimStart_loop.simps [simp del]

definition trimStart :: "string \<Rightarrow> char \<Rightarrow> string" where
  "trimStart str c = (let i = trimStart_loop str c 0 in if i > 0 then drop i str else str)"

function trimEnd_loop :: "string \<Rightarrow> char \<Rightarrow> int \<Rightarrow> int" where
  "trimEnd_loop str c i =
     (if i \<ge> 0 then (if str ! nat i \<noteq> c then i else trimEnd_loop str c (i - 1))
      else i)"
  by pat_completeness auto
termination
  by (relation "measure (\<lambda>(str, c, i). nat (i + 1))") auto

declare trimEnd_loop.simps [simp del]

definition trimEnd :: "string \<Rightarrow> char \<Rightarrow> string" where
  "trimEnd str c =
     (let l = int (length str) - 1; i = trimEnd_loop str c l in
      if i < l then take (nat (i + 1)) str else str)"

text \<open>\<open>x || '0'\<close> on strings: the empty string is falsy.\<close>

definition or_else :: "string \<Rightarrow> string \<Rightarrow> string" where
  "or_else a b = (if a = [] then b else a)"

text \<open>The unary \<open>+\<close> on a string of decimal digits: the nearest binary64 value up to 20
  significant digits, the choice of the host beyond.\<close>

definition is_digit :: "char \<Rightarrow> bool" where
  "is_digit c \<longleftrightarrow> c \<in> set ''0123456789''"

definition digit_value :: "char \<Rightarrow> rat" where
  "digit_value c = of_nat (of_char c - 48)"

definition decimal :: "string \<Rightarrow> rat" where
  "decimal ds = foldl (\<lambda>acc c. acc * 10 + digit_value c) 0 ds"

definition unary_plus :: "host \<Rightarrow> string \<Rightarrow> number" where
  "unary_plus H ds =
     (if length (dropWhile (\<lambda>c. c = CHR ''0'') ds) \<le> 20 then fl (decimal ds)
      else h_num H ds)"

text \<open>\<open>String(x)\<close> for an integer below \<open>10 ^ 21\<close> (no exponent notation; other finite values are
  not rendered by the model), and \<open>padStart\<close>, which throws for a length the host cannot allocate.\<close>

function digits_of_nat :: "nat \<Rightarrow> string" where
  "digits_of_nat n =
     (if n < 10 then [''0123456789'' ! n]
      else digits_of_nat (n div 10) @ [''0123456789'' ! (n mod 10)])"
  by pat_completeness auto
termination
  by (relation "measure (\<lambda>n. n)") auto

declare digits_of_nat.simps [simp del]

fun Number_toString :: "number \<Rightarrow> string option" where
  "Number_toString (Fin x) =
     (if x = of_int \<lfloor>x\<rfloor> \<and> \<bar>x\<bar> < 10 ^ 21
      then Some (if x < 0 then CHR ''-'' # digits_of_nat (nat (- \<lfloor>x\<rfloor>))
                 else digits_of_nat (nat \<lfloor>x\<rfloor>))
      else None)"
| "Number_toString PInf = Some ''Infinity''"
| "Number_toString NInf = Some ''-Infinity''"
| "Number_toString NaN = Some ''NaN''"

fun padStart :: "string \<Rightarrow> number \<Rightarrow> char \<Rightarrow> string option" where
  "padStart s (Fin n) c =
     (if trunc n < 2 ^ 29 then Some (replicate (nat (trunc n) - length s) c @ s) else None)"
| "padStart s PInf c = None"
| "padStart s NInf c = Some s"
| "padStart s NaN c = Some s"

text \<open>The two regular expressions, matched from left to right; both are deterministic on their
  anchored input. An absent group \<open>minor\<close> is \<open>None\<close>.\<close>

record groups =
  g_sign :: string
  g_major :: string
  g_minor :: "string option"

definition match_sign :: "string \<Rightarrow> string \<times> string" where
  "match_sign s =
     (case s of
        [] \<Rightarrow> ([], [])
      | c # r \<Rightarrow> if c = CHR ''-'' \<or> c = CHR ''+'' then ([c], r) else ([], s))"

definition STRICT_DECIMAL_REGEX :: "string \<Rightarrow> groups option" where
  "STRICT_DECIMAL_REGEX str =
     (case match_sign str of (sg, r) \<Rightarrow>
        let mj = takeWhile is_digit r; r2 = dropWhile is_digit r in
        if mj = [] then None
        else (case r2 of
                [] \<Rightarrow> Some \<lparr>g_sign = sg, g_major = mj, g_minor = None\<rparr>
              | c # mn \<Rightarrow>
                  if c = CHR ''.'' \<and> mn \<noteq> [] \<and> list_all is_digit mn
                  then Some \<lparr>g_sign = sg, g_major = mj, g_minor = Some mn\<rparr>
                  else None))"

definition LAX_DECIMAL_REGEX :: "string \<Rightarrow> groups option" where
  "LAX_DECIMAL_REGEX str =
     (case match_sign str of (sg, r) \<Rightarrow>
        let mj = takeWhile is_digit r; r2 = dropWhile is_digit r in
        (case r2 of
           [] \<Rightarrow> Some \<lparr>g_sign = sg, g_major = mj, g_minor = None\<rparr>
         | c # mn \<Rightarrow>
             if c = CHR ''.'' \<and> list_all is_digit mn
             then Some \<lparr>g_sign = sg, g_major = mj, g_minor = Some mn\<rparr>
             else None))"

text \<open>\<open>parse\<close> and \<open>parseLax\<close>.\<close>

definition parse :: "host \<Rightarrow> string \<Rightarrow> error + ScaledInteger" where
  "parse H str =
     (case STRICT_DECIMAL_REGEX str of
        None \<Rightarrow> Inl (Error ''invalid decimal string'')
      | Some g \<Rightarrow>
          let sign = g_sign g;
              majorStr = or_else (trimStart (g_major g) CHR ''0'') ''0'';
              minorStr = or_else (trimEnd (case g_minor g of None \<Rightarrow> [] | Some m \<Rightarrow> m) CHR ''0'') ''0'';
              major = unary_plus H majorStr;
              minor = unary_plus H minorStr;
              scale = (if n_eq minor (Fin 0) then Fin 0 else Fin (of_nat (length minorStr)));
              v = n_add (n_mul major (pow10 H scale)) minor
          in ScaledInteger_new (if sign = ''-'' then n_neg v else v) scale)"

definition parseLax :: "host \<Rightarrow> string \<Rightarrow> error + ScaledInteger" where
  "parseLax H str =
     (case LAX_DECIMAL_REGEX str of
        None \<Rightarrow> Inl (Error ''invalid decimal string'')
      | Some g \<Rightarrow>
          let sign = g_sign g;
              majorStr = or_else (trimStart (g_major g) CHR ''0'') ''0'';
              minorStr = or_else (trimEnd (case g_minor g of None \<Rightarrow> [] | Some m \<Rightarrow> m) CHR ''0'') ''0'';
              major = unary_plus H majorStr;
              minor = unary_plus H minorStr;
              scale = Fin (of_nat (length minorStr));
              v = n_add (n_mul major (pow10 H scale)) minor
          in ScaledInteger_new (if sign = ''-'' then n_neg v else v) scale)"

text \<open>Rendering.\<close>

definition toUnits :: "host \<Rightarrow> ScaledInteger \<Rightarrow> number \<times> number" where
  "toUnits H x =
     (let minor = n_rem (p_value x) (pow10 H (p_scale x));
          major = n_div (n_sub (p_value x) minor) (pow10 H (p_scale x))
      in (major, Math_abs minor))"

definition toString :: "host \<Rightarrow> ScaledInteger \<Rightarrow> string option" where
  "toString H x =
     (case toUnits H x of (major, minor) \<Rightarrow>
        if n_eq minor (Fin 0) then Number_toString major
        else
          (case (Number_toString major, Number_toString minor) of
             (Some ms, Some ns) \<Rightarrow>
               (case padStart ns (p_scale x) CHR ''0'' of
                  Some padded \<Rightarrow>
                    Some ((if n_eq major (Fin 0) \<and> n_lt (p_value x) (Fin 0) then ''-'' else [])
                          @ ms @ ''.'' @ padded)
                | None \<Rightarrow> None)
           | _ \<Rightarrow> None))"

definition toLossyNumber :: "host \<Rightarrow> ScaledInteger \<Rightarrow> number" where
  "toLossyNumber H x = n_div (p_value x) (pow10 H (p_scale x))"

section \<open>Specification vocabulary\<close>

text \<open>The invariant of the class, and the exact decimal value an instance denotes.\<close>

definition invariant :: "ScaledInteger \<Rightarrow> bool" where
  "invariant x \<longleftrightarrow>
     isSafeInteger (p_value x) \<and> isSafeInteger (p_scale x) \<and> \<not> n_lt (p_scale x) (Fin 0)"

fun num :: "number \<Rightarrow> rat" where
  "num (Fin a) = a"
| "num _ = 0"

definition decimal_value :: "ScaledInteger \<Rightarrow> rat" where
  "decimal_value x = num (p_value x) / 10 powi \<lfloor>num (p_scale x)\<rfloor>"

text \<open>A host whose powers of ten from \<open>10 ** 23\<close> to \<open>10 ** 308\<close> are finite and at least \<open>2 ^ 54\<close> (the
  true powers exceed \<open>2 ^ 76\<close>), and the host that rounds every result correctly.\<close>

definition host_ok :: "host \<Rightarrow> bool" where
  "host_ok H \<longleftrightarrow>
     (\<forall>e\<in>{23..308::int}. case h_pow H (of_int e) of Fin r \<Rightarrow> 2 ^ 54 \<le> r | _ \<Rightarrow> False)"

definition nearest_host :: host where
  "nearest_host = \<lparr>h_pow = (\<lambda>e. fl (10 powi \<lfloor>e\<rfloor>)), h_num = (\<lambda>s. fl (decimal s))\<rparr>"

text \<open>A number of magnitude at least \<open>2 ^ 54\<close> (or not finite): adding a safe integer to it never
  gives a safe integer.\<close>

definition huge :: "number \<Rightarrow> bool" where
  "huge y \<longleftrightarrow> (case y of Fin r \<Rightarrow> 2 ^ 54 \<le> \<bar>r\<bar> | NaN \<Rightarrow> True | _ \<Rightarrow> True)"

text \<open>The integer fields of a valid instance, the exact sum of two instances at their common
  scale, and the one case in which widening a valid instance yields \<open>NaN\<close>: a zero magnitude
  multiplied by \<open>10 ** d = Infinity\<close>.\<close>

definition magnitude :: "ScaledInteger \<Rightarrow> int" where
  "magnitude x = \<lfloor>num (p_value x)\<rfloor>"

definition scale_of :: "ScaledInteger \<Rightarrow> int" where
  "scale_of x = \<lfloor>num (p_scale x)\<rfloor>"

definition exact_sum :: "ScaledInteger \<Rightarrow> ScaledInteger \<Rightarrow> int" where
  "exact_sum a b =
     magnitude a * 10 ^ nat (max (scale_of a) (scale_of b) - scale_of a)
     + magnitude b * 10 ^ nat (max (scale_of a) (scale_of b) - scale_of b)"

definition widens_zero_to_infinity :: "ScaledInteger \<Rightarrow> ScaledInteger \<Rightarrow> bool" where
  "widens_zero_to_infinity a b \<longleftrightarrow>
     (magnitude a = 0 \<and> scale_of a + 309 \<le> scale_of b)
     \<or> (magnitude b = 0 \<and> scale_of b + 309 \<le> scale_of a)"

section \<open>Properties of the rounding\<close>

lemma rhe_of_int [simp]: "rhe (of_int n) = n"
  by (simp add: rhe_def)

lemma rhe_ge_floor: "\<lfloor>x\<rfloor> \<le> rhe x"
  by (simp add: rhe_def)

lemma rhe_ge: "of_int k \<le> x \<Longrightarrow> k \<le> rhe x"
  using rhe_ge_floor [of x] by (simp add: le_floor_iff order_trans [rotated])

lemma rhe_le: "x \<le> of_int k \<Longrightarrow> rhe x \<le> k"
proof (cases "x = of_int k")
  case True
  then show ?thesis by simp
next
  case False
  assume "x \<le> of_int k"
  with False have "x < of_int k" by simp
  then have "\<lfloor>x\<rfloor> < k" by (simp add: floor_less_iff)
  then show ?thesis by (simp add: rhe_def)
qed

lemma ilog2_up_bounds:
  "1 \<le> x \<Longrightarrow> 0 \<le> ilog2_up x \<and> 2 powi (ilog2_up x) \<le> x \<and> x < 2 powi (ilog2_up x + 1)"
proof (induction x rule: ilog2_up.induct)
  case (1 x)
  show ?case
  proof (cases "x < 2")
    case True
    with "1.prems" show ?thesis by (subst (1 2 3) ilog2_up.simps) simp
  next
    case False
    then have "1 \<le> x / 2" by simp
    with "1.IH" False
    have ih: "0 \<le> ilog2_up (x / 2)" "2 powi (ilog2_up (x / 2)) \<le> x / 2"
        "x / 2 < 2 powi (ilog2_up (x / 2) + 1)"
      by simp_all
    have e: "ilog2_up x = 1 + ilog2_up (x / 2)"
      using False by (subst ilog2_up.simps) simp
    have "(2::rat) powi (1 + ilog2_up (x / 2)) = 2 * 2 powi (ilog2_up (x / 2))"
      by (simp add: power_int_add)
    moreover have "(2::rat) powi (1 + ilog2_up (x / 2) + 1) = 2 * 2 powi (ilog2_up (x / 2) + 1)"
      by (simp add: power_int_add)
    ultimately show ?thesis using ih unfolding e by simp
  qed
qed

lemma ilog2_down_bounds:
  "0 < x \<Longrightarrow> x < 1 \<Longrightarrow>
     ilog2_down x < 0 \<and> 2 powi (ilog2_down x) \<le> x \<and> x < 2 powi (ilog2_down x + 1)"
proof (induction x rule: ilog2_down.induct)
  case (1 x)
  have e: "ilog2_down x = ilog2_down (2 * x) - 1"
    using "1.prems" by (subst ilog2_down.simps) simp
  show ?case
  proof (cases "2 * x < 1")
    case True
    with "1.IH" "1.prems"
    have ih: "ilog2_down (2 * x) < 0" "2 powi (ilog2_down (2 * x)) \<le> 2 * x"
        "2 * x < 2 powi (ilog2_down (2 * x) + 1)"
      by simp_all
    have "(2::rat) powi (ilog2_down (2 * x)) = 2 * 2 powi (ilog2_down (2 * x) - 1)"
      by (simp add: power_int_diff)
    moreover have "(2::rat) powi (ilog2_down (2 * x) + 1) = 2 * 2 powi (ilog2_down (2 * x))"
      by (simp add: power_int_add)
    ultimately show ?thesis using ih unfolding e by simp
  next
    case False
    then have "ilog2_down (2 * x) = 0" by (subst ilog2_down.simps) simp
    with False "1.prems" show ?thesis unfolding e by (simp add: power_int_minus)
  qed
qed

lemma ilog2_bounds:
  assumes "0 < x"
  shows "2 powi (ilog2 x) \<le> x \<and> x < 2 powi (ilog2 x + 1)"
  using assms ilog2_up_bounds [of x] ilog2_down_bounds [of x]
  by (cases "1 \<le> x") (simp_all add: ilog2_def)

lemma two_powi_less_cancel: "(2::rat) powi a < 2 powi b \<longleftrightarrow> a < b"
proof
  assume l: "(2::rat) powi a < 2 powi b"
  show "a < b"
  proof (rule ccontr)
    assume "\<not> a < b"
    then have "b \<le> a" by simp
    then have "(2::rat) powi b \<le> 2 powi a" by (rule power_int_increasing) simp
    with l show False by simp
  qed
next
  assume "a < b"
  then show "(2::rat) powi a < 2 powi b" by (rule power_int_strict_increasing) simp
qed

lemma two_powi_le_cancel: "(2::rat) powi a \<le> 2 powi b \<longleftrightarrow> a \<le> b"
  using two_powi_less_cancel [of b a] by (simp add: not_less [symmetric])

lemma two_powi_nat: "0 \<le> k \<Longrightarrow> (2::rat) powi k = of_int (2 ^ nat k)"
  by (simp add: power_int_def)

lemma two_powi_pos: "0 < (2::rat) powi k"
  by (simp add: zero_less_power_int)

lemma fl_repr:
  assumes x: "x = of_int m * 2 powi k" and m: "\<bar>m\<bar> < 2 ^ 53" and k: "- 1074 \<le> k"
    and big: "\<bar>x\<bar> < 2 ^ 1024"
  shows "fl x = Fin x"
proof (cases "x = 0")
  case True
  then show ?thesis by (simp add: fl_def)
next
  case False
  define e where "e = ilog2 \<bar>x\<bar>"
  define q where "q = max (e - 52) (- 1074)"
  have pos: "0 < \<bar>x\<bar>" using False by simp
  have ax: "\<bar>x\<bar> = of_int \<bar>m\<bar> * 2 powi k"
    using two_powi_pos [of k] by (simp add: x abs_mult)
  have "2 powi e \<le> \<bar>x\<bar>" using ilog2_bounds [OF pos] by (simp add: e_def)
  also have "\<bar>x\<bar> < 2 ^ 53 * 2 powi k"
  proof -
    have "(of_int \<bar>m\<bar> :: rat) < of_int (2 ^ 53)" using m by (simp only: of_int_less_iff)
    then have "(of_int \<bar>m\<bar> :: rat) < 2 ^ 53" by simp
    then show ?thesis unfolding ax using two_powi_pos [of k] by (simp only: mult_strict_right_mono)
  qed
  also have "(2::rat) ^ 53 * 2 powi k = 2 powi (53 + k)"
    by (simp add: power_int_add)
  finally have "e < 53 + k" by (simp only: two_powi_less_cancel)
  with k have qk: "q \<le> k" by (simp add: q_def)
  then have d: "0 \<le> k - q" by simp
  have "\<bar>x\<bar> / 2 powi q = of_int \<bar>m\<bar> * (2 powi k / 2 powi q)"
    by (simp add: ax)
  also have "(2::rat) powi k / 2 powi q = 2 powi (k - q)"
    by (simp add: power_int_diff)
  also have "\<dots> = of_int (2 ^ nat (k - q))" using d by (rule two_powi_nat)
  finally have quo: "\<bar>x\<bar> / 2 powi q = of_int (\<bar>m\<bar> * 2 ^ nat (k - q))"
    by simp
  have "of_int (rhe (\<bar>x\<bar> / 2 powi q)) * 2 powi q = \<bar>x\<bar> / 2 powi q * 2 powi q"
    unfolding quo by (simp only: rhe_of_int)
  also have "\<dots> = \<bar>x\<bar>" using two_powi_pos [of q] by simp
  finally have y: "of_int (rhe (\<bar>x\<bar> / 2 powi q)) * 2 powi q = \<bar>x\<bar>" .
  have "sgn x * \<bar>x\<bar> = x" by (simp add: mult_sgn_abs)
  with big False show ?thesis
    unfolding fl_def Let_def e_def [symmetric] q_def [symmetric] y by simp
qed

lemma fl_int:
  assumes "\<bar>n\<bar> \<le> 2 ^ 53"
  shows "fl (of_int n) = Fin (of_int n)"
proof (cases "\<bar>n\<bar> < 2 ^ 53")
  case True
  have "\<bar>n\<bar> < 2 ^ 1024" using True by (rule less_trans) simp
  then have "(of_int \<bar>n\<bar> :: rat) < of_int (2 ^ 1024)" by (simp only: of_int_less_iff)
  then have "\<bar>of_int n :: rat\<bar> < 2 ^ 1024" by simp
  then show ?thesis using True by (intro fl_repr [where m = n and k = 0]) simp_all
next
  case False
  with assms have "\<bar>n\<bar> = 2 ^ 53" by simp
  then have n: "n = 2 ^ 53 \<or> n = - (2 ^ 53)" by (simp add: abs_if split: if_splits)
  have "fl (of_int n) = Fin (of_int n)" if "n = s * 2 ^ 53" "\<bar>s\<bar> = 1" for s :: int
    using that by (intro fl_repr [where m = "s * 2 ^ 52" and k = 1]) (simp_all add: abs_mult)
  from this [of 1] this [of "- 1"] n show ?thesis by auto
qed

lemma fl_even:
  assumes "even n" and "\<bar>n\<bar> \<le> 2 ^ 54"
  shows "fl (of_int n) = Fin (of_int n)"
proof -
  from assms(1) obtain m where n: "n = 2 * m" ..
  with assms(2) have m: "\<bar>m\<bar> \<le> 2 ^ 53" by (simp add: abs_mult)
  show ?thesis
  proof (cases "\<bar>m\<bar> < 2 ^ 53")
    case True
    have "\<bar>n\<bar> < 2 ^ 1024" using assms(2) by (rule le_less_trans) simp
    then have "(of_int \<bar>n\<bar> :: rat) < of_int (2 ^ 1024)" by (simp only: of_int_less_iff)
    then have "\<bar>of_int n :: rat\<bar> < 2 ^ 1024" by simp
    then show ?thesis using True
      by (intro fl_repr [where m = m and k = 1]) (simp_all add: n)
  next
    case False
    with m have "\<bar>m\<bar> = 2 ^ 53" by simp
    then have "m = 2 ^ 53 \<or> m = - (2 ^ 53)" by (simp add: abs_if split: if_splits)
    then have c: "n = 2 ^ 54 \<or> n = - (2 ^ 54)" by (auto simp: n)
    have "fl (of_int n) = Fin (of_int n)" if "n = s * 2 ^ 54" "\<bar>s\<bar> = 1" for s :: int
      using that by (intro fl_repr [where m = "s * 2 ^ 52" and k = 2]) (simp_all add: abs_mult)
    from this [of 1] this [of "- 1"] c show ?thesis by auto
  qed
qed

lemma fl_ge:
  fixes p :: nat
  assumes "2 ^ p \<le> \<bar>x\<bar>"
  shows "fl x = PInf \<or> fl x = NInf \<or> (\<exists>y. fl x = Fin y \<and> 2 ^ p \<le> \<bar>y\<bar>)"
proof -
  define e where "e = ilog2 \<bar>x\<bar>"
  define q where "q = max (e - 52) (- 1074)"
  have "(0::rat) < 2 ^ p" by simp
  then have pos: "0 < \<bar>x\<bar>" using assms by (rule less_le_trans)
  then have nz: "x \<noteq> 0" by simp
  have b: "2 powi e \<le> \<bar>x\<bar>" "\<bar>x\<bar> < 2 powi (e + 1)"
    using ilog2_bounds [OF pos] by (simp_all add: e_def)
  have "(2::rat) powi (int p) = 2 ^ p" by simp
  with assms b(2) have "(2::rat) powi (int p) < 2 powi (e + 1)" by simp
  then have "int p < e + 1" by (simp only: two_powi_less_cancel)
  then have pe: "int p \<le> e" by simp
  then have qe: "q \<le> e" by (simp add: q_def)
  then have d: "0 \<le> e - q" by simp
  have "(2::rat) powi e / 2 powi q = 2 powi (e - q)" by (simp add: power_int_diff)
  also have "\<dots> = of_int (2 ^ nat (e - q))" using d by (rule two_powi_nat)
  finally have "of_int (2 ^ nat (e - q)) = (2::rat) powi e / 2 powi q" by simp
  also have "\<dots> \<le> \<bar>x\<bar> / 2 powi q"
    using b(1) two_powi_pos [of q] by (simp add: divide_right_mono)
  finally have "2 ^ nat (e - q) \<le> rhe (\<bar>x\<bar> / 2 powi q)" by (rule rhe_ge)
  then have "(of_int (2 ^ nat (e - q)) :: rat) \<le> of_int (rhe (\<bar>x\<bar> / 2 powi q))"
    by (simp only: of_int_le_iff)
  then have A: "(of_int (2 ^ nat (e - q)) :: rat) * 2 powi q
               \<le> of_int (rhe (\<bar>x\<bar> / 2 powi q)) * 2 powi q"
    using two_powi_pos [of q] by (simp only: mult_le_cancel_right_pos)
  have B: "(of_int (2 ^ nat (e - q)) :: rat) * 2 powi q = 2 powi e"
    using two_powi_nat [OF d, symmetric] by (simp add: power_int_add [symmetric])
  have C: "(2::rat) ^ p \<le> 2 powi e"
    using pe two_powi_le_cancel [of "int p" e] by simp
  from C A have y: "(2::rat) ^ p \<le> of_int (rhe (\<bar>x\<bar> / 2 powi q)) * 2 powi q"
    unfolding B by (rule order_trans)
  define y where "y = (of_int (rhe (\<bar>x\<bar> / 2 powi q)) * 2 powi q :: rat)"
  have yp: "2 ^ p \<le> y" using y by (simp add: y_def)
  then have "0 \<le> y" by (rule order_trans [rotated]) simp
  then have "\<bar>sgn x * y\<bar> = y" using nz by (simp add: abs_mult)
  with yp have "2 ^ p \<le> \<bar>sgn x * y\<bar>" by simp
  then show ?thesis
    unfolding fl_def Let_def e_def [symmetric] q_def [symmetric] y_def [symmetric]
    using nz by auto
qed

lemma fl_zero [simp]: "fl 0 = Fin 0"
  by (simp add: fl_def)

lemma fl_minus: "fl (- x) = (case fl x of Fin y \<Rightarrow> Fin (- y) | PInf \<Rightarrow> NInf | NInf \<Rightarrow> PInf | NaN \<Rightarrow> NaN)"
  by (cases "x = 0"; cases "0 < x") (auto simp: fl_def Let_def sgn_if)

lemma fl_safe: "x = of_int \<lfloor>x\<rfloor> \<Longrightarrow> \<bar>x\<bar> \<le> 9007199254740992 \<Longrightarrow> fl x = Fin x"
proof -
  assume x: "x = of_int \<lfloor>x\<rfloor>" and b: "\<bar>x\<bar> \<le> 9007199254740992"
  have "\<bar>(of_int \<lfloor>x\<rfloor> :: rat)\<bar> \<le> of_int 9007199254740992"
    using b x by simp
  then have "(of_int \<bar>\<lfloor>x\<rfloor>\<bar> :: rat) \<le> of_int 9007199254740992" by simp
  then have "\<bar>\<lfloor>x\<rfloor>\<bar> \<le> 9007199254740992" by (simp only: of_int_le_iff)
  then have "\<bar>\<lfloor>x\<rfloor>\<bar> \<le> 2 ^ 53" by simp
  then have "fl (of_int \<lfloor>x\<rfloor>) = Fin (of_int \<lfloor>x\<rfloor>)" by (rule fl_int)
  with x show ?thesis by simp
qed

lemma ilog2_up_small: "x < 2 \<Longrightarrow> ilog2_up x = 0"
  by (subst ilog2_up.simps) simp

lemma ilog2_up_big: "2 \<le> x \<Longrightarrow> ilog2_up x = 1 + ilog2_up (x / 2)"
  by (subst ilog2_up.simps) simp

lemma ilog2_down_stop: "x \<le> 0 \<or> 1 \<le> x \<Longrightarrow> ilog2_down x = 0"
  by (subst ilog2_down.simps) simp

lemma ilog2_down_step: "0 < x \<Longrightarrow> x < 1 \<Longrightarrow> ilog2_down x = ilog2_down (2 * x) - 1"
  by (subst ilog2_down.simps) simp

lemma floor_numeral_div: "\<lfloor>(numeral a :: rat) / numeral b\<rfloor> = numeral a div numeral b"
  using floor_divide_of_int_eq [of "numeral a" "numeral b", where ?'a = rat] by simp

lemmas fl_eval = floor_numeral_div fl_def Let_def rhe_def ilog2_def ilog2_up_small ilog2_up_big
  ilog2_down_stop ilog2_down_step power_int_minus

lemma isSafeInteger_obtain:
  assumes "isSafeInteger x"
  obtains m where "x = Fin (of_int m)" and "\<bar>m\<bar> \<le> 9007199254740991"
proof -
  from assms obtain a where x: "x = Fin a" by (cases x) simp_all
  with assms have a: "a = of_int \<lfloor>a\<rfloor>" and b: "\<bar>a\<bar> \<le> 9007199254740991" by simp_all
  have "\<bar>(of_int \<lfloor>a\<rfloor> :: rat)\<bar> \<le> of_int 9007199254740991" using a b by simp
  then have "(of_int \<bar>\<lfloor>a\<rfloor>\<bar> :: rat) \<le> of_int 9007199254740991" by simp
  then have "\<bar>\<lfloor>a\<rfloor>\<bar> \<le> 9007199254740991" by (simp only: of_int_le_iff)
  moreover have "x = Fin (of_int \<lfloor>a\<rfloor>)" using x a by simp
  ultimately show ?thesis by (rule that [rotated])
qed

lemma isSafeInteger_of_int:
  "isSafeInteger (Fin (of_int m)) \<longleftrightarrow> \<bar>m\<bar> \<le> 9007199254740991"
proof -
  have "\<bar>(of_int m :: rat)\<bar> \<le> 9007199254740991 \<longleftrightarrow> (of_int \<bar>m\<bar> :: rat) \<le> of_int 9007199254740991"
    by simp
  also have "\<dots> \<longleftrightarrow> \<bar>m\<bar> \<le> 9007199254740991"
    by (simp only: of_int_le_iff)
  finally show ?thesis by simp
qed

lemma of_int_abs_ge: "(2::rat) ^ p \<le> \<bar>of_int n\<bar> \<longleftrightarrow> 2 ^ p \<le> \<bar>n\<bar>"
proof -
  have "(2::rat) ^ p \<le> \<bar>of_int n\<bar> \<longleftrightarrow> (of_int (2 ^ p) :: rat) \<le> of_int \<bar>n\<bar>" by simp
  also have "\<dots> \<longleftrightarrow> 2 ^ p \<le> \<bar>n\<bar>" by (simp only: of_int_le_iff)
  finally show ?thesis .
qed

lemma fl_big_unsafe:
  assumes "2 ^ 53 \<le> \<bar>x\<bar>"
  shows "\<not> isSafeInteger (fl x)"
proof -
  from fl_ge [OF assms] consider "fl x = PInf" | "fl x = NInf"
    | y where "fl x = Fin y" "2 ^ 53 \<le> \<bar>y\<bar>" by blast
  then show ?thesis
  proof cases
    case 3
    then have "9007199254740991 < \<bar>y\<bar>" by simp
    with 3(1) show ?thesis by simp
  qed simp_all
qed

text \<open>A sum of integers: exact when it is safe, and never safe otherwise.\<close>

lemma n_add_int:
  "isSafeInteger (n_add (Fin (of_int a)) (Fin (of_int b))) \<longleftrightarrow> \<bar>a + b\<bar> \<le> 9007199254740991"
  "\<bar>a + b\<bar> \<le> 9007199254740991 \<Longrightarrow>
     n_add (Fin (of_int a)) (Fin (of_int b)) = Fin (of_int (a + b))"
proof -
  have ex: "n_add (Fin (of_int a)) (Fin (of_int b)) = Fin (of_int (a + b))"
    if "\<bar>a + b\<bar> \<le> 9007199254740991"
  proof -
    from that have "\<bar>a + b\<bar> \<le> 2 ^ 53" by simp
    then have "fl (of_int (a + b)) = Fin (of_int (a + b))" by (rule fl_int)
    then show ?thesis by simp
  qed
  show "\<bar>a + b\<bar> \<le> 9007199254740991 \<Longrightarrow>
     n_add (Fin (of_int a)) (Fin (of_int b)) = Fin (of_int (a + b))"
    by (rule ex)
  show "isSafeInteger (n_add (Fin (of_int a)) (Fin (of_int b))) \<longleftrightarrow> \<bar>a + b\<bar> \<le> 9007199254740991"
  proof (cases "\<bar>a + b\<bar> \<le> 9007199254740991")
    case True
    then show ?thesis by (simp only: ex isSafeInteger_of_int)
  next
    case False
    then have "2 ^ 53 \<le> \<bar>a + b\<bar>" by simp
    then have "(2::rat) ^ 53 \<le> \<bar>of_int (a + b)\<bar>" by (simp only: of_int_abs_ge)
    then have "\<not> isSafeInteger (fl (of_int (a + b)))" by (rule fl_big_unsafe)
    with False show ?thesis by simp
  qed
qed

lemma huge_plus_safe:
  assumes "huge y" and "\<bar>w\<bar> \<le> 2 ^ 53"
  shows "\<not> isSafeInteger (n_add y (Fin w))" and "\<not> isSafeInteger (n_add (Fin w) y)"
proof -
  have "\<not> isSafeInteger (n_add y (Fin w)) \<and> \<not> isSafeInteger (n_add (Fin w) y)"
  proof (cases y)
    case (Fin r)
    with assms(1) have r: "2 ^ 54 \<le> \<bar>r\<bar>" by (simp add: huge_def)
    have "\<bar>r\<bar> - \<bar>w\<bar> \<le> \<bar>r + w\<bar>" by simp
    moreover have "(2::rat) ^ 54 - 2 ^ 53 = 2 ^ 53" by simp
    ultimately have "2 ^ 53 \<le> \<bar>r + w\<bar>" using r assms(2) by linarith
    then have "\<not> isSafeInteger (fl (r + w))" by (rule fl_big_unsafe)
    then show ?thesis using Fin by (simp add: add.commute)
  qed simp_all
  then show "\<not> isSafeInteger (n_add y (Fin w))" and "\<not> isSafeInteger (n_add (Fin w) y)"
    by simp_all
qed

lemma fl_huge:
  assumes "2 ^ 54 \<le> \<bar>x\<bar>"
  shows "huge (fl x)"
  using fl_ge [OF assms] by (auto simp: huge_def)

lemma n_add_commute: "n_add x y = n_add y x"
  by (cases x; cases y) (simp_all add: add.commute)

lemma pow10_exact:
  "0 \<le> d \<Longrightarrow> d \<le> 22 \<Longrightarrow> pow10 H (Fin (of_int d)) = Fin (of_int (10 ^ nat d))"
  by simp

lemma pow10_inf: "309 \<le> d \<Longrightarrow> pow10 H (Fin (of_int d)) = PInf"
  by simp

lemma pow10_host:
  assumes "host_ok H" and "23 \<le> d" and "d \<le> 308"
  obtains r where "pow10 H (Fin (of_int d)) = Fin r" and "2 ^ 54 \<le> r"
proof -
  from assms have "case h_pow H (of_int d) of Fin r \<Rightarrow> 2 ^ 54 \<le> r | _ \<Rightarrow> False"
    by (simp add: host_ok_def)
  then obtain r where "h_pow H (of_int d) = Fin r" "2 ^ 54 \<le> r"
    by (cases "h_pow H (of_int d)") simp_all
  moreover have "pow10 H (Fin (of_int d)) = h_pow H (of_int d)"
    using assms(2,3) by simp
  ultimately show ?thesis using that by simp
qed

lemma ten_pow_ge: "23 \<le> d \<Longrightarrow> (2::int) ^ 54 < 10 ^ nat d"
proof -
  assume "23 \<le> d"
  then have "(10::int) ^ 23 \<le> 10 ^ nat d"
    by (intro power_increasing) simp_all
  then show ?thesis by simp
qed

lemma scaled_cases:
  assumes H: "host_ok H" and d: "0 \<le> d" and m: "\<bar>m\<bar> \<le> 9007199254740991"
  defines "X \<equiv> n_mul (Fin (of_int m)) (pow10 H (Fin (of_int d)))"
  shows "(\<bar>m * 10 ^ nat d\<bar> \<le> 2 ^ 54 \<and> X = Fin (of_int (m * 10 ^ nat d)))
       \<or> (m = 0 \<and> d \<le> 308 \<and> X = Fin 0)
       \<or> (huge X \<and> (2 ^ 54 < \<bar>m * 10 ^ nat d\<bar> \<or> (m = 0 \<and> 309 \<le> d)))"
proof -
  consider "d \<le> 22" | "23 \<le> d" "d \<le> 308" | "309 \<le> d" by linarith
  then show ?thesis
  proof cases
    case 1
    have X: "X = fl (of_int (m * 10 ^ nat d))"
      using d 1 by (simp add: X_def)
    show ?thesis
    proof (cases "\<bar>m * 10 ^ nat d\<bar> \<le> 2 ^ 54")
      case True
      have "fl (of_int (m * 10 ^ nat d)) = Fin (of_int (m * 10 ^ nat d))"
      proof (cases "d = 0")
        case True
        with m have "\<bar>m * 10 ^ nat d\<bar> \<le> 2 ^ 53" by simp
        then show ?thesis by (rule fl_int)
      next
        case False
        with d have "0 < nat d" by simp
        then have "even (m * 10 ^ nat d)" by simp
        then show ?thesis using True by (rule fl_even)
      qed
      with True X show ?thesis by simp
    next
      case False
      then have "2 ^ 54 \<le> \<bar>m * 10 ^ nat d\<bar>" by simp
      then have "(2::rat) ^ 54 \<le> \<bar>of_int (m * 10 ^ nat d)\<bar>" by (simp only: of_int_abs_ge)
      then have "huge (fl (of_int (m * 10 ^ nat d)))" by (rule fl_huge)
      with False X show ?thesis by simp
    qed
  next
    case 2
    from pow10_host [OF H 2] obtain r where r: "pow10 H (Fin (of_int d)) = Fin r" "2 ^ 54 \<le> r" .
    show ?thesis
    proof (cases "m = 0")
      case True
      then show ?thesis using 2 r by (simp add: X_def)
    next
      case False
      then have "1 \<le> \<bar>m\<bar>" by simp
      then have "(1::rat) \<le> \<bar>of_int m\<bar>" by (simp add: of_int_abs [symmetric] del: of_int_abs)
      moreover have "0 \<le> r" using r(2) by (rule order_trans [rotated]) simp
      ultimately have "1 * r \<le> \<bar>of_int m\<bar> * r" by (intro mult_right_mono)
      then have "r \<le> \<bar>of_int m\<bar> * r" by (simp only: mult_1)
      with r(2) have "2 ^ 54 \<le> \<bar>of_int m\<bar> * r" by (rule order_trans)
      moreover have "\<bar>of_int m * r\<bar> = \<bar>of_int m\<bar> * r"
        using \<open>0 \<le> r\<close> by (simp only: abs_mult abs_of_nonneg)
      ultimately have "2 ^ 54 \<le> \<bar>of_int m * r\<bar>" by (simp only:)
      then have "huge (fl (of_int m * r))" by (rule fl_huge)
      moreover have "2 ^ 54 < \<bar>m * 10 ^ nat d\<bar>"
      proof -
        have "(2::int) ^ 54 < 10 ^ nat d" using 2(1) by (rule ten_pow_ge)
        also have "\<dots> = 1 * 10 ^ nat d" by simp
        also have "\<dots> \<le> \<bar>m\<bar> * 10 ^ nat d" using \<open>1 \<le> \<bar>m\<bar>\<close> by (intro mult_right_mono) simp_all
        finally show ?thesis by (simp add: abs_mult)
      qed
      ultimately show ?thesis using r by (simp add: X_def)
    qed
  next
    case 3
    have p: "pow10 H (Fin (of_int d)) = PInf" using 3 by (rule pow10_inf)
    show ?thesis
    proof (cases "m = 0")
      case True
      then show ?thesis using 3 p by (simp add: X_def huge_def)
    next
      case False
      then have "1 \<le> \<bar>m\<bar>" by simp
      have "2 ^ 54 < \<bar>m * 10 ^ nat d\<bar>"
      proof -
        have "23 \<le> d" using 3 by simp
        then have "(2::int) ^ 54 < 10 ^ nat d" by (rule ten_pow_ge)
        also have "\<dots> = 1 * 10 ^ nat d" by simp
        also have "\<dots> \<le> \<bar>m\<bar> * 10 ^ nat d" using \<open>1 \<le> \<bar>m\<bar>\<close> by (intro mult_right_mono) simp_all
        finally show ?thesis by (simp add: abs_mult)
      qed
      moreover have "huge X" using False p by (simp add: X_def huge_def)
      ultimately show ?thesis by simp
    qed
  qed
qed

lemma scaled_sum:
  assumes H: "host_ok H" and d: "0 \<le> d" and m: "\<bar>m\<bar> \<le> 9007199254740991"
    and w: "\<bar>w\<bar> \<le> 9007199254740991"
  defines "X \<equiv> n_mul (Fin (of_int m)) (pow10 H (Fin (of_int d)))"
  shows "isSafeInteger (n_add X (Fin (of_int w)))
           \<longleftrightarrow> \<bar>m * 10 ^ nat d + w\<bar> \<le> 9007199254740991 \<and> \<not> (m = 0 \<and> 309 \<le> d)"
    and "isSafeInteger (n_add X (Fin (of_int w)))
           \<Longrightarrow> n_add X (Fin (of_int w)) = Fin (of_int (m * 10 ^ nat d + w))"
proof -
  have w': "\<bar>(of_int w :: rat)\<bar> \<le> 2 ^ 53"
  proof -
    from w have "\<bar>w\<bar> \<le> 2 ^ 53" by simp
    then have "(of_int \<bar>w\<bar> :: rat) \<le> of_int (2 ^ 53)" by (simp only: of_int_le_iff)
    then show ?thesis by simp
  qed
  from scaled_cases [OF H d m]
  consider (exact) "\<bar>m * 10 ^ nat d\<bar> \<le> 2 ^ 54" "X = Fin (of_int (m * 10 ^ nat d))"
    | (zero) "m = 0" "d \<le> 308" "X = Fin 0"
    | (huge) "huge X" "2 ^ 54 < \<bar>m * 10 ^ nat d\<bar> \<or> (m = 0 \<and> 309 \<le> d)"
    unfolding X_def by blast
  then have "(isSafeInteger (n_add X (Fin (of_int w)))
           \<longleftrightarrow> \<bar>m * 10 ^ nat d + w\<bar> \<le> 9007199254740991 \<and> \<not> (m = 0 \<and> 309 \<le> d))
         \<and> (isSafeInteger (n_add X (Fin (of_int w)))
           \<longrightarrow> n_add X (Fin (of_int w)) = Fin (of_int (m * 10 ^ nat d + w)))"
  proof cases
    case exact
    have nz: "\<not> (m = 0 \<and> 309 \<le> d)"
    proof
      assume a: "m = 0 \<and> 309 \<le> d"
      then have "X = NaN" by (simp add: X_def)
      with exact(2) show False by simp
    qed
    show ?thesis
      unfolding exact(2) using nz n_add_int [of "m * 10 ^ nat d" w] by auto
  next
    case zero
    have "n_add (Fin 0) (Fin (of_int w)) = Fin (of_int w)"
      using n_add_int(2) [of 0 w] w by simp
    then show ?thesis using zero w by (simp add: isSafeInteger_of_int)
  next
    case huge
    have u: "\<not> isSafeInteger (n_add X (Fin (of_int w)))"
      using huge(1) w' by (rule huge_plus_safe)
    have "\<not> (\<bar>m * 10 ^ nat d + w\<bar> \<le> 9007199254740991 \<and> \<not> (m = 0 \<and> 309 \<le> d))"
    proof (cases "m = 0 \<and> 309 \<le> d")
      case False
      with huge(2) have "2 ^ 54 < \<bar>m * 10 ^ nat d\<bar>" by blast
      moreover have "\<bar>m * 10 ^ nat d\<bar> - \<bar>w\<bar> \<le> \<bar>m * 10 ^ nat d + w\<bar>" by simp
      ultimately have "9007199254740991 < \<bar>m * 10 ^ nat d + w\<bar>" using w by simp
      then show ?thesis by simp
    qed simp
    with u show ?thesis by blast
  qed
  then show "isSafeInteger (n_add X (Fin (of_int w)))
           \<longleftrightarrow> \<bar>m * 10 ^ nat d + w\<bar> \<le> 9007199254740991 \<and> \<not> (m = 0 \<and> 309 \<le> d)"
    and "isSafeInteger (n_add X (Fin (of_int w)))
           \<Longrightarrow> n_add X (Fin (of_int w)) = Fin (of_int (m * 10 ^ nat d + w))"
    by blast+
qed

lemma two_powi_add: "(2::rat) powi a * 2 powi b = 2 powi (a + b)"
  by (simp add: power_int_add)

lemma fl_finite:
  assumes pos: "0 < x" and top: "x \<le> 9007199254740991 * 2 ^ 971"
  shows "\<exists>y. fl x = Fin y"
proof -
  define e where "e = ilog2 \<bar>x\<bar>"
  define q where "q = max (e - 52) (- 1074)"
  define n where "n = rhe (\<bar>x\<bar> / 2 powi q)"
  have ax: "\<bar>x\<bar> = x" using pos by simp
  have b: "2 powi e \<le> x" "x < 2 powi (e + 1)"
    using ilog2_bounds [of "\<bar>x\<bar>"] pos by (simp_all add: e_def)
  have "x < 2 ^ 1024" using top by simp
  then have "x < 2 powi 1024" by simp
  with b(1) have "(2::rat) powi e < 2 powi 1024" by (rule le_less_trans)
  then have "e < 1024" by (simp only: two_powi_less_cancel)
  then have e: "e \<le> 1023" by simp
  have qpos: "(0::rat) < 2 powi q" by (rule two_powi_pos)
  have "of_int n * 2 powi q < (2::rat) ^ 1024"
  proof (cases "e = 1023")
    case True
    then have q: "q = 971" by (simp add: q_def)
    have "x / 2 powi 971 \<le> of_int 9007199254740991"
      using top by (simp add: field_simps)
    then have "n \<le> 9007199254740991" unfolding n_def ax q by (rule rhe_le)
    then have "(of_int n :: rat) \<le> of_int 9007199254740991" by (simp only: of_int_le_iff)
    then have "(of_int n :: rat) * 2 powi 971 \<le> 9007199254740991 * 2 powi 971"
      by (simp add: mult_right_mono)
    also have "\<dots> < (2::rat) ^ 1024" by simp
    finally show ?thesis by (simp only: q)
  next
    case False
    with e have e': "e \<le> 1022" by simp
    have eq: "e + 1 - q \<le> 53" by (simp add: q_def)
    have "x / 2 powi q < 2 powi (e + 1) / 2 powi q"
      using b(2) qpos by (simp add: divide_strict_right_mono)
    also have "\<dots> = 2 powi (e + 1 - q)" by (simp add: power_int_diff)
    also have "\<dots> \<le> 2 powi 53" using eq by (simp only: two_powi_le_cancel)
    also have "\<dots> = of_int (2 ^ 53)" by simp
    finally have "x / 2 powi q \<le> of_int (2 ^ 53)" by simp
    then have "n \<le> 2 ^ 53" unfolding n_def ax by (rule rhe_le)
    then have "(of_int n :: rat) \<le> of_int (2 ^ 53)" by (simp only: of_int_le_iff)
    then have "(of_int n :: rat) * 2 powi q \<le> 2 powi 53 * 2 powi q"
      using qpos by (simp add: mult_right_mono)
    also have "\<dots> = 2 powi (53 + q)" by (rule two_powi_add)
    also have "\<dots> \<le> 2 powi 1023"
      using e' by (simp only: two_powi_le_cancel) (simp add: q_def)
    also have "\<dots> < (2::rat) ^ 1024" by simp
    finally show ?thesis .
  qed
  then have "\<not> (2::rat) ^ 1024 \<le> of_int (rhe (\<bar>x\<bar> / 2 powi q)) * 2 powi q"
    by (simp only: n_def not_le)
  then show ?thesis
    unfolding fl_def Let_def e_def [symmetric] q_def [symmetric] using pos by simp
qed

lemma fl_nonneg:
  assumes "0 < x" and "fl x = Fin y"
  shows "0 \<le> y"
proof -
  define q where "q = max (ilog2 \<bar>x\<bar> - 52) (- 1074)"
  have "0 \<le> \<bar>x\<bar> / 2 powi q" using two_powi_pos [of q] by simp
  then have "of_int 0 \<le> \<bar>x\<bar> / 2 powi q" by simp
  then have "0 \<le> rhe (\<bar>x\<bar> / 2 powi q)" by (rule rhe_ge)
  then have "(0::rat) \<le> of_int (rhe (\<bar>x\<bar> / 2 powi q)) * 2 powi q"
    using two_powi_pos [of q] by simp
  with assms show ?thesis
    unfolding fl_def Let_def q_def [symmetric] by (auto split: if_splits)
qed

lemma host_ok_nearest: "host_ok nearest_host"
  unfolding host_ok_def
proof
  fix e :: int
  assume "e \<in> {23..308}"
  then have e: "23 \<le> e" "e \<le> 308" by simp_all
  define x :: rat where "x = 10 powi e"
  have x: "x = 10 ^ nat e" using e by (simp add: x_def power_int_def)
  have lo: "(2::rat) ^ 54 \<le> x"
  proof -
    have "(10::rat) ^ 23 \<le> 10 ^ nat e" using e by (intro power_increasing) simp_all
    then show ?thesis unfolding x by simp
  qed
  have hi: "x \<le> 9007199254740991 * 2 ^ 971"
  proof -
    have "(10::rat) ^ nat e \<le> 10 ^ 308" using e by (intro power_increasing) simp_all
    then show ?thesis unfolding x by simp
  qed
  have "0 < x" unfolding x by simp
  from fl_finite [OF this hi] obtain y where y: "fl x = Fin y" ..
  have "2 ^ 54 \<le> \<bar>x\<bar>" using lo by simp
  from fl_ge [OF this] y have "2 ^ 54 \<le> \<bar>y\<bar>" by simp
  moreover have "0 \<le> y" using \<open>0 < x\<close> y by (rule fl_nonneg)
  ultimately have "2 ^ 54 \<le> y" by simp
  then show "case h_pow nearest_host (of_int e) of Fin r \<Rightarrow> 2 ^ 54 \<le> r | _ \<Rightarrow> False"
    using y by (simp add: nearest_host_def x_def)
qed

lemma invariant_fields:
  assumes "invariant x"
  shows "p_value x = Fin (of_int (magnitude x))" and "\<bar>magnitude x\<bar> \<le> 9007199254740991"
    and "p_scale x = Fin (of_int (scale_of x))" and "0 \<le> scale_of x"
    and "scale_of x \<le> 9007199254740991"
proof -
  from assms have v: "isSafeInteger (p_value x)" and s: "isSafeInteger (p_scale x)"
    and n: "\<not> n_lt (p_scale x) (Fin 0)"
    by (simp_all add: invariant_def)
  from v obtain m where m: "p_value x = Fin (of_int m)" "\<bar>m\<bar> \<le> 9007199254740991"
    by (rule isSafeInteger_obtain)
  from s obtain k where k: "p_scale x = Fin (of_int k)" "\<bar>k\<bar> \<le> 9007199254740991"
    by (rule isSafeInteger_obtain)
  have mm: "magnitude x = m" by (simp add: magnitude_def m)
  have kk: "scale_of x = k" by (simp add: scale_of_def k)
  show "p_value x = Fin (of_int (magnitude x))" by (simp only: mm m)
  show "\<bar>magnitude x\<bar> \<le> 9007199254740991" by (simp only: mm m)
  show "p_scale x = Fin (of_int (scale_of x))" by (simp only: kk k)
  show "0 \<le> scale_of x" using n by (simp add: kk k)
  show "scale_of x \<le> 9007199254740991" using k(2) by (simp add: kk)
qed

lemma scale_diff:
  assumes "0 \<le> j" and "j \<le> k" and "k \<le> 9007199254740991"
  shows "n_sub (Fin (of_int k)) (Fin (of_int j)) = Fin (of_int (k - j))"
proof -
  have "\<bar>k + - j\<bar> \<le> 9007199254740991" using assms by simp
  then have "n_add (Fin (of_int k)) (Fin (of_int (- j))) = Fin (of_int (k + - j))"
    by (rule n_add_int(2))
  then show ?thesis by (simp add: n_sub_def)
qed

lemma normalized_sum:
  assumes H: "host_ok H" and a: "invariant a" and b: "invariant b"
    and n: "normalizedValues H a b = ((l, r), s)"
  shows "s = Fin (of_int (max (scale_of a) (scale_of b)))"
    and "isSafeInteger (n_add l r)
           \<longleftrightarrow> \<bar>exact_sum a b\<bar> \<le> 9007199254740991 \<and> \<not> widens_zero_to_infinity a b"
    and "isSafeInteger (n_add l r) \<Longrightarrow> n_add l r = Fin (of_int (exact_sum a b))"
proof -
  note fa = invariant_fields [OF a] and fb = invariant_fields [OF b]
  have "s = Fin (of_int (max (scale_of a) (scale_of b)))
      \<and> (isSafeInteger (n_add l r)
           \<longleftrightarrow> \<bar>exact_sum a b\<bar> \<le> 9007199254740991 \<and> \<not> widens_zero_to_infinity a b)
      \<and> (isSafeInteger (n_add l r) \<longrightarrow> n_add l r = Fin (of_int (exact_sum a b)))"
  proof (cases "scale_of a < scale_of b")
    case True
    define d where "d = scale_of b - scale_of a"
    have d: "0 \<le> d" using True by (simp add: d_def)
    have lt: "n_lt (p_scale a) (p_scale b)"
      using True by (simp add: fa(3) fb(3))
    have sub: "n_sub (p_scale b) (p_scale a) = Fin (of_int d)"
      unfolding fa(3) fb(3) d_def using fa(4) True fb(5) by (intro scale_diff) simp_all
    from n lt have l: "l = n_mul (Fin (of_int (magnitude a))) (pow10 H (Fin (of_int d)))"
      and r: "r = Fin (of_int (magnitude b))" and s: "s = p_scale b"
      by (simp_all add: normalizedValues_def unsafelyGetRelativeValue_def Let_def sub fa(1) fb(1))
    have mx: "max (scale_of a) (scale_of b) = scale_of b" using True by simp
    have es: "exact_sum a b = magnitude a * 10 ^ nat d + magnitude b"
      by (simp add: exact_sum_def mx d_def)
    have wz: "widens_zero_to_infinity a b \<longleftrightarrow> magnitude a = 0 \<and> 309 \<le> d"
      using True by (auto simp: widens_zero_to_infinity_def d_def)
    from scaled_sum [OF H d fa(2) fb(2)] show ?thesis
      unfolding l r es wz s fb(3) mx by blast
  next
    case False
    define d where "d = scale_of a - scale_of b"
    have d: "0 \<le> d" using False by (simp add: d_def)
    have lt: "\<not> n_lt (p_scale a) (p_scale b)"
      using False by (simp add: fa(3) fb(3))
    have sub: "n_sub (p_scale a) (p_scale b) = Fin (of_int d)"
      unfolding fa(3) fb(3) d_def using fb(4) False fa(5) by (intro scale_diff) simp_all
    from n lt have l: "l = Fin (of_int (magnitude a))"
      and r: "r = n_mul (Fin (of_int (magnitude b))) (pow10 H (Fin (of_int d)))"
      and s: "s = p_scale a"
      by (simp_all add: normalizedValues_def unsafelyGetRelativeValue_def Let_def sub fa(1) fb(1))
    have mx: "max (scale_of a) (scale_of b) = scale_of a" using False by simp
    have es: "exact_sum a b = magnitude b * 10 ^ nat d + magnitude a"
      by (simp add: exact_sum_def mx d_def)
    have wz: "widens_zero_to_infinity a b \<longleftrightarrow> magnitude b = 0 \<and> 309 \<le> d"
      using False fa(4) fb(4) by (auto simp: widens_zero_to_infinity_def d_def)
    from scaled_sum [OF H d fb(2) fa(2)] show ?thesis
      unfolding l r es wz s fa(3) mx n_add_commute [of "Fin (of_int (magnitude a))"] by blast
  qed
  then show "s = Fin (of_int (max (scale_of a) (scale_of b)))"
    and "isSafeInteger (n_add l r)
           \<longleftrightarrow> \<bar>exact_sum a b\<bar> \<le> 9007199254740991 \<and> \<not> widens_zero_to_infinity a b"
    and "isSafeInteger (n_add l r) \<Longrightarrow> n_add l r = Fin (of_int (exact_sum a b))"
    by blast+
qed

lemma ten_powi_nat: "0 \<le> k \<Longrightarrow> (10::rat) powi k = 10 ^ nat k"
  by (simp add: power_int_def)

lemma exact_sum_decimal:
  assumes a: "invariant a" and b: "invariant b"
  shows "of_int (exact_sum a b) / 10 powi (max (scale_of a) (scale_of b))
           = decimal_value a + decimal_value b"
proof -
  note fa = invariant_fields [OF a] and fb = invariant_fields [OF b]
  define s where "s = max (scale_of a) (scale_of b)"
  have sa: "scale_of a \<le> s" and sb: "scale_of b \<le> s" by (simp_all add: s_def)
  have pa: "(10::rat) powi s = 10 ^ nat (s - scale_of a) * 10 powi (scale_of a)"
    using sa by (simp add: ten_powi_nat [symmetric] power_int_add [symmetric])
  have pb: "(10::rat) powi s = 10 ^ nat (s - scale_of b) * 10 powi (scale_of b)"
    using sb by (simp add: ten_powi_nat [symmetric] power_int_add [symmetric])
  have "(of_int (exact_sum a b) :: rat) / 10 powi s
          = of_int (magnitude a) * 10 ^ nat (s - scale_of a) / 10 powi s
            + of_int (magnitude b) * 10 ^ nat (s - scale_of b) / 10 powi s"
    by (simp add: exact_sum_def s_def [symmetric] add_divide_distrib)
  also have "(of_int (magnitude a) :: rat) * 10 ^ nat (s - scale_of a) / 10 powi s
               = of_int (magnitude a) / 10 powi (scale_of a)"
    by (subst pa) simp
  also have "(of_int (magnitude b) :: rat) * 10 ^ nat (s - scale_of b) / 10 powi s
               = of_int (magnitude b) / 10 powi (scale_of b)"
    by (subst pb) simp
  finally show ?thesis
    by (simp add: decimal_value_def fa(1,3) fb(1,3) s_def)
qed

lemma sum_path:
  assumes H: "host_ok H" and a: "invariant a" and b: "invariant b"
    and op: "\<And>x y. f x y =
      (case normalizedValues H x y of ((lhs, rhs), scale) \<Rightarrow>
         let v = n_add lhs rhs in
         if \<not> isSafeInteger v then Inl (Error msg)
         else Inr \<lparr>p_value = v, p_scale = scale\<rparr>)"
  shows "f a b = (if \<bar>exact_sum a b\<bar> \<le> 9007199254740991 \<and> \<not> widens_zero_to_infinity a b
                  then Inr \<lparr>p_value = Fin (of_int (exact_sum a b)),
                            p_scale = Fin (of_int (max (scale_of a) (scale_of b)))\<rparr>
                  else Inl (Error msg))"
proof -
  obtain l r s where n: "normalizedValues H a b = ((l, r), s)"
    by (cases "normalizedValues H a b") auto
  note ns = normalized_sum [OF H a b n]
  show ?thesis
  proof (cases "isSafeInteger (n_add l r)")
    case True
    with ns show ?thesis by (simp add: op n)
  next
    case False
    with ns show ?thesis by (simp add: op n)
  qed
qed

lemma sum_result_invariant:
  assumes a: "invariant a" and b: "invariant b"
    and s: "\<bar>exact_sum a b\<bar> \<le> 9007199254740991"
  shows "invariant \<lparr>p_value = Fin (of_int (exact_sum a b)),
                    p_scale = Fin (of_int (max (scale_of a) (scale_of b)))\<rparr>"
proof -
  note fa = invariant_fields [OF a] and fb = invariant_fields [OF b]
  define k where "k = max (scale_of a) (scale_of b)"
  have k: "0 \<le> k" "\<bar>k\<bar> \<le> 9007199254740991"
    using fa(4,5) fb(4,5) by (simp_all add: k_def)
  have "isSafeInteger (Fin (of_int (exact_sum a b)))"
    using s by (simp only: isSafeInteger_of_int)
  moreover have "isSafeInteger (Fin (of_int k))"
    using k(2) by (simp only: isSafeInteger_of_int)
  moreover have "\<not> n_lt (Fin (of_int k)) (Fin 0)" using k(1) by simp
  ultimately show ?thesis
    unfolding k_def [symmetric] by (simp add: invariant_def)
qed












lemma digits_of_nat_small: "n < 10 \<Longrightarrow> digits_of_nat n = [''0123456789'' ! n]"
  by (subst digits_of_nat.simps) simp

lemma digits_of_nat_big:
  "10 \<le> n \<Longrightarrow> digits_of_nat n = digits_of_nat (n div 10) @ [''0123456789'' ! (n mod 10)]"
  by (subst digits_of_nat.simps) simp

lemma trimStart_loop_stop: "\<not> i < length str \<Longrightarrow> trimStart_loop str c i = i"
  by (subst trimStart_loop.simps) simp

lemma trimStart_loop_break: "i < length str \<Longrightarrow> str ! i \<noteq> c \<Longrightarrow> trimStart_loop str c i = i"
  by (subst trimStart_loop.simps) simp

lemma trimStart_loop_step:
  "i < length str \<Longrightarrow> str ! i = c \<Longrightarrow> trimStart_loop str c i = trimStart_loop str c (Suc i)"
  by (subst trimStart_loop.simps) simp

lemma trimEnd_loop_stop: "\<not> 0 \<le> i \<Longrightarrow> trimEnd_loop str c i = i"
  by (subst trimEnd_loop.simps) simp

lemma trimEnd_loop_break: "0 \<le> i \<Longrightarrow> str ! nat i \<noteq> c \<Longrightarrow> trimEnd_loop str c i = i"
  by (subst trimEnd_loop.simps) simp

lemma trimEnd_loop_step:
  "0 \<le> i \<Longrightarrow> str ! nat i = c \<Longrightarrow> trimEnd_loop str c i = trimEnd_loop str c (i - 1)"
  by (subst trimEnd_loop.simps) simp

lemma trimScale_loop_stop: "\<not> n_lt i sc \<Longrightarrow> trimScale_loop H v sc i = Some i"
  by (subst trimScale_loop.simps) simp

lemma trimScale_loop_break:
  "n_lt i sc \<Longrightarrow> \<not> n_eq (n_rem v (pow10 H (n_add i (Fin 1)))) (Fin 0)
     \<Longrightarrow> trimScale_loop H v sc i = Some i"
  by (subst trimScale_loop.simps) simp

lemma trimScale_loop_step:
  "n_lt i sc \<Longrightarrow> n_eq (n_rem v (pow10 H (n_add i (Fin 1)))) (Fin 0)
     \<Longrightarrow> trimScale_loop H v sc i = trimScale_loop H v sc (n_add i (Fin 1))"
  by (subst trimScale_loop.simps) simp

lemma maximumScale_loop_stop:
  "\<not> i < length values \<Longrightarrow> maximumScale_loop values i max_item maxScale = (i, max_item)"
  by (subst maximumScale_loop.simps) simp

lemma maximumScale_loop_step:
  "i < length values \<Longrightarrow>
     maximumScale_loop values i max_item maxScale =
       (if n_lt maxScale (p_scale (values ! i))
        then maximumScale_loop values (Suc i) (values ! i) (p_scale (values ! i))
        else maximumScale_loop values (Suc i) max_item maxScale)"
  by (subst maximumScale_loop.simps) simp

lemma normalize_loop_stop:
  "\<not> i < length values \<Longrightarrow> normalize_loop H values maxIndex max_item i output = Inr output"
  by (subst normalize_loop.simps) simp

lemma normalize_loop_step:
  "i < length values \<Longrightarrow>
     normalize_loop H values maxIndex max_item i output =
       (if i = maxIndex
        then normalize_loop H values maxIndex max_item (Suc i) (output @ [values ! i])
        else (case clone (values ! i) of
                Inl e \<Rightarrow> Inl e
              | Inr cloned \<Rightarrow>
                  normalize_loop H values maxIndex max_item (Suc i)
                    (output @ [normalizeTo H cloned max_item])))"
  by (subst normalize_loop.simps) simp

lemma digit_value_simps:
  "digit_value CHR ''0'' = 0" "digit_value CHR ''1'' = 1" "digit_value CHR ''2'' = 2"
  "digit_value CHR ''3'' = 3" "digit_value CHR ''4'' = 4" "digit_value CHR ''5'' = 5"
  "digit_value CHR ''6'' = 6" "digit_value CHR ''7'' = 7" "digit_value CHR ''8'' = 8"
  "digit_value CHR ''9'' = 9"
  by (simp_all add: digit_value_def)

lemmas class_eval =
  ScaledInteger_new_def clone_def getRelativeValue_def unsafelyGetRelativeValue_def
  normalizedValues_def equal_def increaseScale_def transformScale_def normalizeTo_def
  trimScale_def add_def subtract_def multiply_def maximumScale_def normalize_def
  invariant_def n_sub_def n_eq_def trunc_def Let_def fl_safe floor_numeral_div
  trimScale_loop_stop trimScale_loop_break trimScale_loop_step
  maximumScale_loop_stop maximumScale_loop_step normalize_loop_stop normalize_loop_step

lemmas parse_eval =
  parse_def parseLax_def STRICT_DECIMAL_REGEX_def LAX_DECIMAL_REGEX_def match_sign_def
  is_digit_def trimStart_def trimEnd_def or_else_def unary_plus_def decimal_def
  digit_value_simps trimStart_loop_stop trimStart_loop_break trimStart_loop_step
  trimEnd_loop_stop trimEnd_loop_break trimEnd_loop_step

lemmas render_eval =
  toUnits_def toString_def digits_of_nat_small digits_of_nat_big

lemma floor_minus_one: "\<lfloor>- 1 :: rat\<rfloor> = - 1"
  using floor_of_int [of "- 1", where ?'a = rat] by simp

section \<open>The claims\<close>

subsection \<open>C1: subtract\<close>

text \<open>
  C1 says that \<open>a.subtract(b)\<close> negates the normalized right-hand value before summing, so
  that the result is \<open>value(a) - value(b)\<close>. The body of \<open>subtract\<close> computes \<open>lhs + rhs\<close>
  without any negation: on every host, \<open>3 - 1\<close> at scale 0 leaves the receiver at \<open>4\<close>.
\<close>

theorem subtract_adds_rhs:
  "subtract H \<lparr>p_value = Fin 3, p_scale = Fin 0\<rparr> \<lparr>p_value = Fin 1, p_scale = Fin 0\<rparr>
     = Inr \<lparr>p_value = Fin 4, p_scale = Fin 0\<rparr>"
  by (simp add: class_eval)

subsection \<open>C2: getRelativeValue\<close>

text \<open>
  C2 says that \<open>getRelativeValue\<close> widens to a greater target scale and fails exactly when the
  target scale is smaller. The guard of the code is the other way round: with the receiver
  \<open>(5, 0)\<close> and a target of scale 1 it throws \<open>other scale must be greater\<close> on every host,
  and with the receiver \<open>(5, 1)\<close> and a target of scale 0 it narrows: it returns
  \<open>5 * 10 ** -1\<close>, which is \<open>0.5\<close> on a host whose \<open>10 ** -1\<close> is the binary64 value nearest to
  one tenth.
\<close>

theorem getRelativeValue_direction:
  "getRelativeValue H \<lparr>p_value = Fin 5, p_scale = Fin 0\<rparr> \<lparr>p_value = Fin 0, p_scale = Fin 1\<rparr>
     = Inl (Error ''other scale must be greater'')
   \<and> (h_pow H (- 1) = Fin (3602879701896397 / 36028797018963968) \<longrightarrow>
        getRelativeValue H \<lparr>p_value = Fin 5, p_scale = Fin 1\<rparr> \<lparr>p_value = Fin 0, p_scale = Fin 0\<rparr>
          = Inr (Fin (1 / 2)))"
  by (simp add: class_eval fl_eval)

text \<open>The host that rounds correctly has that value of \<open>10 ** -1\<close>.\<close>

lemma nearest_tenth: "h_pow nearest_host (- 1) = Fin (3602879701896397 / 36028797018963968)"
  by (simp add: nearest_host_def floor_minus_one fl_eval)

theorem getRelativeValue_direction_witness:
  "getRelativeValue nearest_host \<lparr>p_value = Fin 5, p_scale = Fin 1\<rparr>
       \<lparr>p_value = Fin 0, p_scale = Fin 0\<rparr> = Inr (Fin (1 / 2))"
  using getRelativeValue_direction [of nearest_host] nearest_tenth by blast

subsection \<open>C3: increaseScale\<close>

text \<open>
  C3 says that \<open>increaseScale\<close> fails with an overflow error if and only if the new magnitude
  leaves the safe-integer range. The method has no check: on every host
  \<open>increaseScale(1)\<close> on the valid instance \<open>(10 ^ 15, 0)\<close> returns and stores the unsafe
  magnitude \<open>10 ^ 16\<close>, so that \<open>clone\<close> of the receiver throws afterwards; on
  \<open>(9007199254740991, 0)\<close> it stores the rounded product \<open>90071992547409904\<close>, and
  \<open>increaseScale(309)\<close> on \<open>(0, 0)\<close> stores \<open>0 * Infinity = NaN\<close>.
\<close>

theorem increaseScale_unchecked:
  "invariant \<lparr>p_value = Fin 1000000000000000, p_scale = Fin 0\<rparr>
   \<and> increaseScale H \<lparr>p_value = Fin 1000000000000000, p_scale = Fin 0\<rparr> (Fin 1)
       = \<lparr>p_value = Fin 10000000000000000, p_scale = Fin 1\<rparr>
   \<and> \<not> isSafeInteger (Fin 10000000000000000)
   \<and> clone (increaseScale H \<lparr>p_value = Fin 1000000000000000, p_scale = Fin 0\<rparr> (Fin 1))
       = Inl (Error ''unsafe integer value'')
   \<and> increaseScale H \<lparr>p_value = Fin 9007199254740991, p_scale = Fin 0\<rparr> (Fin 1)
       = \<lparr>p_value = Fin 90071992547409904, p_scale = Fin 1\<rparr>
   \<and> increaseScale H \<lparr>p_value = Fin 0, p_scale = Fin 0\<rparr> (Fin 309)
       = \<lparr>p_value = NaN, p_scale = Fin 309\<rparr>"
proof -
  have "fl 10000000000000000 = Fin 10000000000000000" by (simp add: fl_eval)
  moreover have "fl 90071992547409910 = Fin 90071992547409904" by (simp add: fl_eval)
  ultimately show ?thesis by (simp add: class_eval)
qed

subsection \<open>C4: the invariant\<close>

text \<open>
  C4 says that every operation preserves the invariant (both fields safe integers, scale not
  negative). The three methods that widen do not: from valid instances,
  \<open>increaseScale(1)\<close>, \<open>transformScale(1)\<close> and \<open>normalizeTo\<close> an instance of scale 1 all
  leave the receiver \<open>(10 ^ 15, 0)\<close> with the unsafe magnitude \<open>10 ^ 16\<close>, a state the
  constructor rejects.
\<close>

theorem invariant_broken_by_widening:
  "invariant \<lparr>p_value = Fin 1000000000000000, p_scale = Fin 0\<rparr>
   \<and> invariant \<lparr>p_value = Fin 0, p_scale = Fin 1\<rparr>
   \<and> \<not> invariant (increaseScale H \<lparr>p_value = Fin 1000000000000000, p_scale = Fin 0\<rparr> (Fin 1))
   \<and> \<not> invariant (fst (transformScale H \<lparr>p_value = Fin 1000000000000000, p_scale = Fin 0\<rparr> (Fin 1)))
   \<and> \<not> invariant (normalizeTo H \<lparr>p_value = Fin 1000000000000000, p_scale = Fin 0\<rparr>
                      \<lparr>p_value = Fin 0, p_scale = Fin 1\<rparr>)
   \<and> ScaledInteger_new (Fin 10000000000000000) (Fin 1) = Inl (Error ''unsafe integer value'')"
proof -
  have "fl 10000000000000000 = Fin 10000000000000000" by (simp add: fl_eval)
  then show ?thesis by (simp add: class_eval)
qed

subsection \<open>C5: add\<close>

text \<open>
  C5: on valid instances, whenever \<open>a.add(b)\<close> returns, the result is a valid instance of
  scale \<open>max(a.scale, b.scale)\<close> whose magnitude is the exact sum of the two magnitudes
  widened to that scale, so that its decimal value is \<open>value(a) + value(b)\<close> as exact
  rationals, for all scale combinations. It returns exactly when that exact sum is a safe
  integer, except when a zero magnitude is widened by 309 digits or more
  (\<open>0 * Infinity = NaN\<close>); otherwise it throws \<open>addition overflow\<close>.
\<close>

theorem add_exact:
  assumes "host_ok H" and "invariant a" and "invariant b"
  shows "(\<forall>r. add H a b = Inr r \<longrightarrow>
            invariant r \<and> scale_of r = max (scale_of a) (scale_of b)
            \<and> magnitude r = exact_sum a b
            \<and> decimal_value r = decimal_value a + decimal_value b)
       \<and> ((\<exists>r. add H a b = Inr r) \<longleftrightarrow>
            \<bar>exact_sum a b\<bar> \<le> 9007199254740991 \<and> \<not> widens_zero_to_infinity a b)"
proof -
  let ?r = "\<lparr>p_value = Fin (of_int (exact_sum a b)),
             p_scale = Fin (of_int (max (scale_of a) (scale_of b)))\<rparr>"
  have e: "add H a b = (if \<bar>exact_sum a b\<bar> \<le> 9007199254740991 \<and> \<not> widens_zero_to_infinity a b
                  then Inr ?r else Inl (Error ''addition overflow''))"
    using assms by (rule sum_path) (simp add: add_def)
  have d: "decimal_value ?r = decimal_value a + decimal_value b"
    using exact_sum_decimal [OF assms(2,3)] by (simp add: decimal_value_def)
  have i: "\<bar>exact_sum a b\<bar> \<le> 9007199254740991 \<Longrightarrow> invariant ?r"
    using assms(2,3) by (rule sum_result_invariant)
  have m: "magnitude ?r = exact_sum a b" "scale_of ?r = max (scale_of a) (scale_of b)"
    by (simp_all add: magnitude_def scale_of_def)
  show ?thesis
  proof (cases "\<bar>exact_sum a b\<bar> \<le> 9007199254740991 \<and> \<not> widens_zero_to_infinity a b")
    case True
    then have "add H a b = Inr ?r" by (simp add: e)
    moreover have "invariant ?r" using True by (intro i) simp
    ultimately show ?thesis using True d m by simp
  next
    case False
    then have "add H a b = Inl (Error ''addition overflow'')" by (simp add: e)
    then show ?thesis using False by simp
  qed
qed

text \<open>
  Two operands of different scales, \<open>3 + 2.5 = 5.5\<close>, and the example of the specification:
  \<open>parse("1.74291456").add(parse("-0.53168294")).trimScale().toString()\<close> is
  \<open>"1.21123162"\<close>.
\<close>

theorem add_exact_witness:
  "add nearest_host \<lparr>p_value = Fin 3, p_scale = Fin 0\<rparr> \<lparr>p_value = Fin 25, p_scale = Fin 1\<rparr>
     = Inr \<lparr>p_value = Fin 55, p_scale = Fin 1\<rparr>
   \<and> decimal_value \<lparr>p_value = Fin 55, p_scale = Fin 1\<rparr>
       = decimal_value \<lparr>p_value = Fin 3, p_scale = Fin 0\<rparr>
         + decimal_value \<lparr>p_value = Fin 25, p_scale = Fin 1\<rparr>
   \<and> parse nearest_host ''1.74291456'' = Inr \<lparr>p_value = Fin 174291456, p_scale = Fin 8\<rparr>
   \<and> parse nearest_host ''-0.53168294'' = Inr \<lparr>p_value = Fin (- 53168294), p_scale = Fin 8\<rparr>
   \<and> add nearest_host \<lparr>p_value = Fin 174291456, p_scale = Fin 8\<rparr>
         \<lparr>p_value = Fin (- 53168294), p_scale = Fin 8\<rparr>
       = Inr \<lparr>p_value = Fin 121123162, p_scale = Fin 8\<rparr>
   \<and> trimScale nearest_host \<lparr>p_value = Fin 121123162, p_scale = Fin 8\<rparr>
       = Some \<lparr>p_value = Fin 121123162, p_scale = Fin 8\<rparr>
   \<and> toString nearest_host \<lparr>p_value = Fin 121123162, p_scale = Fin 8\<rparr> = Some ''1.21123162''"
proof -
  let ?a = "\<lparr>p_value = Fin 3, p_scale = Fin 0\<rparr>"
  let ?b = "\<lparr>p_value = Fin 25, p_scale = Fin 1\<rparr>"
  have ia: "invariant ?a" and ib: "invariant ?b" by (simp_all add: invariant_def)
  have s: "add nearest_host ?a ?b = Inr \<lparr>p_value = Fin 55, p_scale = Fin 1\<rparr>"
    by (simp add: class_eval)
  from add_exact [OF host_ok_nearest ia ib] s
  have d: "decimal_value \<lparr>p_value = Fin 55, p_scale = Fin 1\<rparr>
             = decimal_value ?a + decimal_value ?b"
    by blast
  have p1: "parse nearest_host ''1.74291456'' = Inr \<lparr>p_value = Fin 174291456, p_scale = Fin 8\<rparr>"
    by (simp add: parse_eval class_eval)
  have p2: "parse nearest_host ''-0.53168294''
              = Inr \<lparr>p_value = Fin (- 53168294), p_scale = Fin 8\<rparr>"
    by (simp add: parse_eval class_eval)
  have s2: "add nearest_host \<lparr>p_value = Fin 174291456, p_scale = Fin 8\<rparr>
         \<lparr>p_value = Fin (- 53168294), p_scale = Fin 8\<rparr>
       = Inr \<lparr>p_value = Fin 121123162, p_scale = Fin 8\<rparr>"
    by (simp add: class_eval)
  have t: "trimScale nearest_host \<lparr>p_value = Fin 121123162, p_scale = Fin 8\<rparr>
       = Some \<lparr>p_value = Fin 121123162, p_scale = Fin 8\<rparr>"
    by (simp add: class_eval)
  have u: "toString nearest_host \<lparr>p_value = Fin 121123162, p_scale = Fin 8\<rparr> = Some ''1.21123162''"
    by (simp add: render_eval class_eval)
  from s d p1 p2 s2 t u show ?thesis by blast
qed

subsection \<open>C6: multiply\<close>

text \<open>
  C6: on valid instances \<open>a.multiply(b)\<close> returns the same instance as \<open>a.add(b)\<close> whenever
  either returns, and throws exactly when \<open>add\<close> throws (the message is
  \<open>multiplication overflow\<close> where \<open>add\<close> has \<open>addition overflow\<close>). The result of a
  multiplication has the scale \<open>max(a.scale, b.scale)\<close> and the sum, not the product, of the
  two magnitudes widened to that scale.
\<close>

theorem multiply_adds:
  assumes "host_ok H" and "invariant a" and "invariant b"
  shows "(\<forall>r. multiply H a b = Inr r \<longleftrightarrow> add H a b = Inr r)
       \<and> (multiply H a b = Inl (Error ''multiplication overflow'')
            \<longleftrightarrow> add H a b = Inl (Error ''addition overflow''))
       \<and> (isl (multiply H a b) \<longleftrightarrow> isl (add H a b))
       \<and> (\<forall>r. multiply H a b = Inr r \<longrightarrow>
            scale_of r = max (scale_of a) (scale_of b)
            \<and> magnitude r =
                magnitude a * 10 ^ nat (max (scale_of a) (scale_of b) - scale_of a)
                + magnitude b * 10 ^ nat (max (scale_of a) (scale_of b) - scale_of b)
            \<and> decimal_value r = decimal_value a + decimal_value b)"
proof -
  let ?r = "\<lparr>p_value = Fin (of_int (exact_sum a b)),
             p_scale = Fin (of_int (max (scale_of a) (scale_of b)))\<rparr>"
  have e: "add H a b = (if \<bar>exact_sum a b\<bar> \<le> 9007199254740991 \<and> \<not> widens_zero_to_infinity a b
                  then Inr ?r else Inl (Error ''addition overflow''))"
    using assms by (rule sum_path) (simp add: add_def)
  have f: "multiply H a b = (if \<bar>exact_sum a b\<bar> \<le> 9007199254740991 \<and> \<not> widens_zero_to_infinity a b
                  then Inr ?r else Inl (Error ''multiplication overflow''))"
    using assms by (rule sum_path) (simp add: multiply_def)
  have d: "decimal_value ?r = decimal_value a + decimal_value b"
    using exact_sum_decimal [OF assms(2,3)] by (simp add: decimal_value_def)
  have m: "magnitude ?r = exact_sum a b" "scale_of ?r = max (scale_of a) (scale_of b)"
    by (simp_all add: magnitude_def scale_of_def)
  have x: "exact_sum a b =
             magnitude a * 10 ^ nat (max (scale_of a) (scale_of b) - scale_of a)
             + magnitude b * 10 ^ nat (max (scale_of a) (scale_of b) - scale_of b)"
    by (simp add: exact_sum_def)
  show ?thesis
  proof (cases "\<bar>exact_sum a b\<bar> \<le> 9007199254740991 \<and> \<not> widens_zero_to_infinity a b")
    case True
    then have "add H a b = Inr ?r" "multiply H a b = Inr ?r"
      by (simp_all add: e f)
    then show ?thesis using d m x by simp
  next
    case False
    then have "add H a b = Inl (Error ''addition overflow'')"
        "multiply H a b = Inl (Error ''multiplication overflow'')"
      by (simp_all add: e f)
    then show ?thesis by simp
  qed
qed

text \<open>\<open>3 * 2.5\<close> gives \<open>5.5\<close>, and \<open>9007199254740991 * 1\<close> overflows as the sum does.\<close>

theorem multiply_adds_witness:
  "multiply nearest_host \<lparr>p_value = Fin 3, p_scale = Fin 0\<rparr> \<lparr>p_value = Fin 25, p_scale = Fin 1\<rparr>
     = Inr \<lparr>p_value = Fin 55, p_scale = Fin 1\<rparr>
   \<and> add nearest_host \<lparr>p_value = Fin 3, p_scale = Fin 0\<rparr> \<lparr>p_value = Fin 25, p_scale = Fin 1\<rparr>
     = Inr \<lparr>p_value = Fin 55, p_scale = Fin 1\<rparr>
   \<and> multiply nearest_host \<lparr>p_value = Fin 9007199254740991, p_scale = Fin 0\<rparr>
         \<lparr>p_value = Fin 1, p_scale = Fin 0\<rparr> = Inl (Error ''multiplication overflow'')
   \<and> add nearest_host \<lparr>p_value = Fin 9007199254740991, p_scale = Fin 0\<rparr>
         \<lparr>p_value = Fin 1, p_scale = Fin 0\<rparr> = Inl (Error ''addition overflow'')"
proof -
  let ?a = "\<lparr>p_value = Fin 3, p_scale = Fin 0\<rparr>"
  let ?b = "\<lparr>p_value = Fin 25, p_scale = Fin 1\<rparr>"
  let ?c = "\<lparr>p_value = Fin 9007199254740991, p_scale = Fin 0\<rparr>"
  let ?d = "\<lparr>p_value = Fin 1, p_scale = Fin 0\<rparr>"
  have i: "invariant ?a" "invariant ?b" "invariant ?c" "invariant ?d"
    by (simp_all add: invariant_def)
  have m: "multiply nearest_host ?a ?b = Inr \<lparr>p_value = Fin 55, p_scale = Fin 1\<rparr>"
    by (simp add: class_eval)
  have o: "multiply nearest_host ?c ?d = Inl (Error ''multiplication overflow'')"
    by (simp add: class_eval)
  from multiply_adds [OF host_ok_nearest i(1,2)] m
  have "add nearest_host ?a ?b = Inr \<lparr>p_value = Fin 55, p_scale = Fin 1\<rparr>" by blast
  moreover from multiply_adds [OF host_ok_nearest i(3,4)] o
  have "add nearest_host ?c ?d = Inl (Error ''addition overflow'')" by blast
  ultimately show ?thesis using m o by blast
qed

subsection \<open>C8: transformScale\<close>




subsection \<open>C10: normalize\<close>

text \<open>
  C10 says that \<open>normalize\<close> brings every element to the maximum scale of the inputs.
  \<open>maximumScale\<close> skips the first element of its rest array and returns the final loop index
  instead of the index of the maximum: \<open>normalize\<close> of the scales \<open>[0, 1]\<close> returns both
  instances unchanged, and of the scales \<open>[0, 4, 2]\<close> it returns the scales \<open>[2, 4, 2]\<close>.
\<close>

theorem normalize_misses_maximum:
  "normalize H [\<lparr>p_value = Fin 1, p_scale = Fin 0\<rparr>, \<lparr>p_value = Fin 1, p_scale = Fin 1\<rparr>]
     = Inr [\<lparr>p_value = Fin 1, p_scale = Fin 0\<rparr>, \<lparr>p_value = Fin 1, p_scale = Fin 1\<rparr>]
   \<and> normalize H [\<lparr>p_value = Fin 100, p_scale = Fin 0\<rparr>, \<lparr>p_value = Fin 10001, p_scale = Fin 4\<rparr>,
                  \<lparr>p_value = Fin 1001, p_scale = Fin 2\<rparr>]
     = Inr [\<lparr>p_value = Fin 10000, p_scale = Fin 2\<rparr>, \<lparr>p_value = Fin 10001, p_scale = Fin 4\<rparr>,
            \<lparr>p_value = Fin 1001, p_scale = Fin 2\<rparr>]"
  by (simp add: class_eval)

end
